theory Spec2Isabelle
  imports Complex_Main "HOL-Library.Word"
begin

section \<open>Backend descriptors and the replica selector (db_config.h, load_balancer.cpp)\<close>

text \<open>
  The MySQL client library, the random number generators and the wall clock are external.
  Every call into them is modelled by the answer it gives, passed to the function that
  makes the call: the result of \<open>mysql_ping\<close>, of \<open>mysql_init\<close>, of
  \<open>mysql_real_connect\<close> and of \<open>mysql_query\<close>, the number drawn from a
  distribution, the value of \<open>Utils::currentTimeMillis\<close>. Mutexes, logging, telemetry
  counters and sleeping are left out: each member function is one atomic step.
\<close>

type_synonym u32 = "32 word"
type_synonym u64 = "64 word"

record DBConfig =
  host :: string
  user :: string
  password :: string
  database :: string
  port :: u32
  weight :: u32

definition DBConfig_isValid :: "DBConfig \<Rightarrow> bool" where
  "DBConfig_isValid config =
     (host config \<noteq> [] \<and> user config \<noteq> [] \<and> database config \<noteq> [] \<and> port config > 0)"

datatype LoadBalanceStrategy = RANDOM | ROUND_ROBIN | WEIGHTED

record LoadBalancer =
  m_configs :: "DBConfig list"
  m_strategy :: LoadBalanceStrategy
  m_roundRobinIndex :: nat

text \<open>
  Errors are values. Each constructor stands for one \<open>throw\<close> of the source; the
  arguments are the variable parts of its message. \<open>SQLExecutionError\<close> is the class of
  db\_exception.h with its message and error code; the others are \<open>std::runtime_error\<close>.
  Of a message only the text that comes from the driver or from an earlier error is kept:
  the connection id, the SQL text and the decimal form of the error code, which the
  source appends, are left out.
\<close>

datatype exn =
    NoDatabaseConfigurations
  | InitFailed
  | CannotCreateConnection
  | SQLExecutionError string u32
  | OtherErrors
  | AttemptsExhausted string
  | PoolNotRunning
  | AcquireTimeout u32
  | ConfigNotValid
  | NoConnectionsCreated

text \<open>
  The selector draws its numbers from \<open>std::uniform_int_distribution<int>\<close>, which it
  constructs with a lower and an upper bound. The generator is outside: what it answers
  when asked for a number between \<open>a\<close> and \<open>b\<close> is \<open>draw a b\<close>, a parameter of the
  functions that draw. The standard promises a number \<open>i\<close> with \<open>a \<le> i \<le> b\<close>, each with
  the same probability, when \<open>a \<le> b\<close>, and nothing otherwise.
\<close>

type_synonym uniform_int_distribution = "u32 \<Rightarrow> u32 \<Rightarrow> u32"

text \<open>
  \<open>selectWeighted\<close> copies each \<open>unsigned int\<close> weight into an \<open>int\<close> and adds the
  copies up in an \<open>int\<close>; the comparison with the drawn number is a comparison of
  \<open>int\<close>s. A 32-bit word read as two's complement (\<open>sint\<close>, \<open><s\<close>) is that \<open>int\<close>.
\<close>

definition totalWeights :: "DBConfig list \<Rightarrow> u32" where
  "totalWeights configs = foldl (\<lambda>total config. total + weight config) 0 configs"

fun selectWeighted_walk :: "u32 \<Rightarrow> u32 \<Rightarrow> DBConfig list \<Rightarrow> DBConfig option" where
  "selectWeighted_walk randomWeight currentWeight [] = None"
| "selectWeighted_walk randomWeight currentWeight (config # rest) =
     (let currentWeight' = currentWeight + weight config
      in if randomWeight <s currentWeight' then Some config
         else selectWeighted_walk randomWeight currentWeight' rest)"

definition selectWeighted :: "uniform_int_distribution \<Rightarrow> LoadBalancer \<Rightarrow> DBConfig" where
  "selectWeighted draw lb =
     (let randomWeight = draw 0 (totalWeights (m_configs lb) - 1)
      in case selectWeighted_walk randomWeight 0 (m_configs lb) of
           Some config \<Rightarrow> config
         | None \<Rightarrow> m_configs lb ! 0)"

definition selectRandom :: "uniform_int_distribution \<Rightarrow> LoadBalancer \<Rightarrow> DBConfig" where
  "selectRandom draw lb =
     (let selectedIndex = draw 0 (of_nat (length (m_configs lb)) - 1)
      in m_configs lb ! nat (sint selectedIndex))"

definition selectRoundRobin :: "LoadBalancer \<Rightarrow> DBConfig \<times> LoadBalancer" where
  "selectRoundRobin lb =
     (m_configs lb ! m_roundRobinIndex lb,
      lb\<lparr>m_roundRobinIndex := (m_roundRobinIndex lb + 1) mod length (m_configs lb)\<rparr>)"

definition getNextDatabase ::
  "uniform_int_distribution \<Rightarrow> LoadBalancer \<Rightarrow> (exn + DBConfig) \<times> LoadBalancer" where
  "getNextDatabase draw lb =
     (if m_configs lb = [] then (Inl NoDatabaseConfigurations, lb)
      else if m_strategy lb = RANDOM then (Inr (selectRandom draw lb), lb)
      else if m_strategy lb = ROUND_ROBIN then
        (case selectRoundRobin lb of (config, lb') \<Rightarrow> (Inr config, lb'))
      else if m_strategy lb = WEIGHTED then (Inr (selectWeighted draw lb), lb)
      else (Inr (selectWeighted draw lb), lb))"

text \<open>
  The sum of the first \<open>i\<close> weights, read as unsigned numbers: descriptor \<open>i\<close> owns the
  draws from \<open>cumulative configs i\<close> up to, and not including,
  \<open>cumulative configs (Suc i)\<close>.
\<close>

definition cumulative :: "DBConfig list \<Rightarrow> nat \<Rightarrow> nat" where
  "cumulative configs i = (\<Sum>config\<leftarrow>take i configs. unat (weight config))"

section \<open>Sessions (connection.cpp)\<close>

subsection \<open>Transport error classification\<close>

definition isConnectionError :: "u32 \<Rightarrow> bool" where
  "isConnectionError errorCode =
     (if errorCode = 2002 then True
      else if errorCode = 2003 then True
      else if errorCode = 2006 then True
      else if errorCode = 2013 then True
      else if errorCode = 2027 then True
      else if errorCode = 2055 then True
      else False)"

subsection \<open>The session object\<close>

text \<open>
  \<open>m_mysql\<close> records whether the driver handle is non-null. The random connection id
  is not a field: the pool below names a session by its reference.
\<close>

record connection =
  m_mysql :: bool
  m_host :: string
  m_user :: string
  m_password :: string
  m_database :: string
  m_port :: u32
  m_creationTime :: int
  m_lastActiveTime :: int
  m_reconnectInterval :: u32
  m_reconnectAttempts :: u32
  m_totalReconnectAttempts :: u32
  m_successfulReconnects :: u32

datatype ping_result = PingOk | PingFailed u32

definition updateLastActiveTime :: "int \<Rightarrow> connection \<Rightarrow> connection" where
  "updateLastActiveTime now c = c\<lparr>m_lastActiveTime := now\<rparr>"

definition connect :: "bool \<Rightarrow> int \<Rightarrow> connection \<Rightarrow> bool \<times> connection" where
  "connect ok now c = (if \<not> ok then (False, c) else (True, updateLastActiveTime now c))"

definition close :: "connection \<Rightarrow> connection" where
  "close c = (if m_mysql c then c\<lparr>m_mysql := False\<rparr> else c)"

definition isValidQuietly :: "ping_result \<Rightarrow> connection \<Rightarrow> bool" where
  "isValidQuietly ping c =
     (if \<not> m_mysql c then False
      else (case ping of PingFailed errorCode \<Rightarrow> False | PingOk \<Rightarrow> True))"

text \<open>
  \<open>Connection::isValid\<close>. Every path through the locked block returns, so the
  \<open>return reconnect();\<close> that follows the block in the source is never reached and has no
  counterpart here.
\<close>

definition isValid :: "bool \<Rightarrow> ping_result \<Rightarrow> int \<Rightarrow> connection \<Rightarrow> bool \<times> connection" where
  "isValid tryReconnect ping now c =
     (if \<not> m_mysql c then (False, c)
      else (case ping of
              PingFailed errorCode \<Rightarrow>
                if \<not> tryReconnect \<or> \<not> isConnectionError errorCode then (False, c)
                else (True, updateLastActiveTime now c)
            | PingOk \<Rightarrow> (True, updateLastActiveTime now c)))"

subsection \<open>Backoff\<close>

text \<open>
  The jitter is computed in \<open>double\<close>: IEEE 754 binary64, a significand of 53 bits,
  results rounded to the nearest representable number and to the one with an even
  significand when two are equally near. \<open>ilog2 n\<close> is the position of the leading bit of
  \<open>n\<close>, \<open>exponent x\<close> the power of two at or below a positive \<open>x\<close>, and \<open>binary64 x\<close> the
  \<open>double\<close> that an operation with the exact result \<open>x\<close> delivers. Below the normal
  range the spacing of the \<open>double\<close>s stays that of the smallest normal exponent;
  overflow to infinity is not modelled, the products below are less than \<open>2 ^ 33\<close>.
\<close>

fun ilog2 :: "nat \<Rightarrow> nat" where
  "ilog2 n = (if n < 2 then 0 else Suc (ilog2 (n div 2)))"

definition exponent :: "real \<Rightarrow> int" where
  "exponent x =
     (if 1 \<le> x then int (ilog2 (nat \<lfloor>x\<rfloor>))
      else (let k = ilog2 (nat \<lfloor>1 / x\<rfloor>)
            in if x * 2 ^ k = 1 then - int k else - int k - 1))"

definition roundTiesToEven :: "real \<Rightarrow> int" where
  "roundTiesToEven x =
     (let n = \<lfloor>x\<rfloor>
      in if x - of_int n < 1 / 2 then n
         else if 1 / 2 < x - of_int n then n + 1
         else if even n then n else n + 1)"

definition binary64 :: "real \<Rightarrow> real" where
  "binary64 x =
     (if x = 0 then 0
      else
        (let quantum = 2 powi (max (exponent \<bar>x\<bar>) (- 1022) - 52)
         in sgn x * of_int (roundTiesToEven (\<bar>x\<bar> / quantum)) * quantum))"

text \<open>
  \<open>calculateReconnectDelay\<close>. \<open>baseDelay * (1 << (attempt - 1))\<close> is an
  \<open>unsigned int\<close> product and wraps; a shift by 32 or more is undefined in C++ and is
  \<open>None\<close> here. \<open>jitter\<close> is the \<open>double\<close> drawn from
  \<open>uniform_real_distribution<double>(0.8, 1.2)\<close>. In \<open>delay * dist(rng)\<close> the
  \<open>unsigned int\<close> becomes a \<open>double\<close> without loss and the product is rounded; the
  conversion back to \<open>unsigned int\<close> truncates.
\<close>

definition calculateReconnectDelay :: "real \<Rightarrow> u32 \<Rightarrow> connection \<Rightarrow> u32 option" where
  "calculateReconnectDelay jitter attempt c =
     (if 32 \<le> unat (attempt - 1) then None
      else
        (let baseDelay = m_reconnectInterval c;
             exponentialDelay = baseDelay * push_bit (unat (attempt - 1)) 1;
             maxDelay = 30000;
             delay = min exponentialDelay maxDelay;
             jitteredDelay = binary64 (real (unat delay) * jitter)
         in Some (of_nat (nat \<lfloor>max 1 jitteredDelay\<rfloor>))))"

subsection \<open>Reconnect\<close>

text \<open>
  The answers of the driver during one \<open>reconnect\<close>: whether \<open>mysql_init\<close> returned a
  handle, and the outcome of each \<open>mysql_real_connect\<close> in order. The loop counter is an
  \<open>unsigned int\<close>. The list of outcomes also bounds the number of iterations that are
  followed: \<open>None\<close> says that the loop is still running when the list ends. The delay
  computed after a failed attempt only sets the length of a sleep and is not part of the
  session.
\<close>

record reconnect_answers =
  init_ok :: bool
  connects :: "bool list"

fun reconnect_loop :: "bool list \<Rightarrow> u32 \<Rightarrow> connection \<Rightarrow> (bool \<times> connection) option" where
  "reconnect_loop [] attempt c =
     (if attempt \<le> m_reconnectAttempts c then None else Some (False, c))"
| "reconnect_loop (r # rs) attempt c =
     (if attempt \<le> m_reconnectAttempts c then
        (let c1 = c\<lparr>m_totalReconnectAttempts := m_totalReconnectAttempts c + 1\<rparr>
         in if r then Some (True, c1\<lparr>m_successfulReconnects := m_successfulReconnects c1 + 1\<rparr>)
            else reconnect_loop rs (attempt + 1) c1)
      else Some (False, c))"

definition reconnect :: "reconnect_answers \<Rightarrow> connection \<Rightarrow> ((exn + bool) \<times> connection) option" where
  "reconnect a c =
     (let c0 = c\<lparr>m_mysql := False\<rparr>
      in if \<not> init_ok a then Some (Inl InitFailed, c0)
         else (case reconnect_loop (connects a) 1 (c0\<lparr>m_mysql := True\<rparr>) of
                 None \<Rightarrow> None
               | Some (b, c') \<Rightarrow> Some (Inr b, c')))"

subsection \<open>Executing SQL\<close>

text \<open>
  The answers of the driver to one \<open>executeInternal\<close>: the error of \<open>mysql_query\<close> if it
  fails, the error of \<open>mysql_store_result\<close> if it returns no set although the statement
  has fields, and the number of rows (stored or affected) otherwise.
\<close>

record query_answers =
  query_error :: "(string \<times> u32) option"
  store_error :: "(string \<times> u32) option"
  row_count :: nat

datatype QueryResult = ResultSet nat | AffectedRows nat

definition executeInternal ::
  "bool \<Rightarrow> query_answers \<Rightarrow> int \<Rightarrow> connection \<Rightarrow> (exn + QueryResult) \<times> connection" where
  "executeInternal isQuery a now c =
     (if \<not> m_mysql c then (Inl (SQLExecutionError ''Connection not established'' 2006), c)
      else
        (let c1 = updateLastActiveTime now c
         in case query_error a of
              Some (errorMsg, errorCode) \<Rightarrow> (Inl (SQLExecutionError errorMsg errorCode), c1)
            | None \<Rightarrow>
                if isQuery then
                  (case store_error a of
                     Some (errorMsg, errorCode) \<Rightarrow>
                       (Inl (SQLExecutionError (''Failed to store result: '' @ errorMsg) errorCode), c1)
                   | None \<Rightarrow> (Inr (ResultSet (row_count a)), c1))
                else (Inr (AffectedRows (row_count a)), c1)))"

text \<open>
  \<open>executeQueryWithReconnect\<close>. Each element of the list holds the answers for one
  iteration of the \<open>for\<close> loop, whose counter is an \<open>unsigned int\<close>. Next to the
  outcome and the session, the result reports the calls of \<open>reconnect\<close> and of
  \<open>executeInternal\<close> in the order they were made, each with what it returned or threw,
  and what \<open>recordQueryExecuted\<close> was told (true for success). The outcome \<open>None\<close>
  says that the loop is still running when the answers end.
\<close>

record attempt_answers =
  reconnecting :: reconnect_answers
  executing :: query_answers
  clock_reading :: int

datatype call = ReconnectCall "exn + bool" | ExecuteCall "exn + QueryResult"

record execution =
  outcome :: "(exn + QueryResult) option"
  session :: connection
  trace :: "call list"
  recorded :: "bool list"

text \<open>
  How one iteration ends: the function returns or throws (\<open>Leaves\<close>, with what
  \<open>recordQueryExecuted\<close> was told on the way out), or the loop goes on to the next attempt
  with a new \<open>errorMessage\<close>.
\<close>

datatype iteration_end = Leaves "(exn + QueryResult) option" "bool list" | NextAttempt string

text \<open>
  The \<open>try\<close> block with its \<open>catch\<close>. Only \<open>SQLExecutionError\<close> is caught; anything
  else passes through.
\<close>

definition try_executeInternal ::
  "bool \<Rightarrow> attempt_answers \<Rightarrow> connection \<Rightarrow> call \<times> iteration_end \<times> connection" where
  "try_executeInternal isQuery a c =
     (case executeInternal isQuery (executing a) (clock_reading a) c of
        (Inr queryResult, c2) \<Rightarrow>
          (ExecuteCall (Inr queryResult), Leaves (Some (Inr queryResult)) [True], c2)
      | (Inl (SQLExecutionError errorMsg errorCode), c2) \<Rightarrow>
          (ExecuteCall (Inl (SQLExecutionError errorMsg errorCode)),
           (if \<not> isConnectionError errorCode then Leaves (Some (Inl OtherErrors)) [False]
            else NextAttempt errorMsg),
           c2)
      | (Inl e, c2) \<Rightarrow> (ExecuteCall (Inl e), Leaves (Some (Inl e)) [], c2))"

definition executeQueryWithReconnect_iteration ::
  "bool \<Rightarrow> attempt_answers \<Rightarrow> u32 \<Rightarrow> connection \<Rightarrow> call list \<times> iteration_end \<times> connection" where
  "executeQueryWithReconnect_iteration isQuery a attempt c =
     (if attempt > 0 then
        (case reconnect (reconnecting a) c of
           None \<Rightarrow> ([], Leaves None [], c)
         | Some (Inl e, c1) \<Rightarrow> ([ReconnectCall (Inl e)], Leaves (Some (Inl e)) [], c1)
         | Some (Inr False, c1) \<Rightarrow> ([ReconnectCall (Inr False)], NextAttempt ''Failed to reconnect'', c1)
         | Some (Inr True, c1) \<Rightarrow>
             (case try_executeInternal isQuery a c1 of
                (executed, how, c2) \<Rightarrow> ([ReconnectCall (Inr True), executed], how, c2)))
      else
        (case try_executeInternal isQuery a c of
           (executed, how, c2) \<Rightarrow> ([executed], how, c2)))"

definition preceded_by :: "call list \<Rightarrow> execution \<Rightarrow> execution" where
  "preceded_by calls r = r\<lparr>trace := calls @ trace r\<rparr>"

fun executeQueryWithReconnect_loop ::
  "bool \<Rightarrow> attempt_answers list \<Rightarrow> u32 \<Rightarrow> string \<Rightarrow> connection \<Rightarrow> execution" where
  "executeQueryWithReconnect_loop isQuery [] attempt errorMessage c =
     (if attempt \<le> m_reconnectAttempts c then
        \<lparr>outcome = None, session = c, trace = [], recorded = []\<rparr>
      else
        \<lparr>outcome = Some (Inl (AttemptsExhausted errorMessage)), session = c, trace = [],
         recorded = [False]\<rparr>)"
| "executeQueryWithReconnect_loop isQuery (a # as) attempt errorMessage c =
     (if attempt \<le> m_reconnectAttempts c then
        (case executeQueryWithReconnect_iteration isQuery a attempt c of
           (calls, Leaves result told, c') \<Rightarrow>
             \<lparr>outcome = result, session = c', trace = calls, recorded = told\<rparr>
         | (calls, NextAttempt errorMessage', c') \<Rightarrow>
             preceded_by calls
               (executeQueryWithReconnect_loop isQuery as (attempt + 1) errorMessage' c'))
      else
        \<lparr>outcome = Some (Inl (AttemptsExhausted errorMessage)), session = c, trace = [],
         recorded = [False]\<rparr>)"

definition executeQueryWithReconnect ::
  "bool \<Rightarrow> attempt_answers list \<Rightarrow> connection \<Rightarrow> execution" where
  "executeQueryWithReconnect isQuery answers c =
     executeQueryWithReconnect_loop isQuery answers 0 [] c"

fun is_execute :: "call \<Rightarrow> bool" where
  "is_execute (ExecuteCall r) = True"
| "is_execute (ReconnectCall r) = False"

definition executeInternal_calls :: "execution \<Rightarrow> nat" where
  "executeInternal_calls r = length (filter is_execute (trace r))"

text \<open>
  The calls of \<open>reconnect\<close> in a list of calls, and the calls of \<open>reconnect\<close> that
  returned false in an execution. An iteration of the loop that goes on to the next
  attempt makes one call of \<open>executeInternal\<close> or one call of \<open>reconnect\<close> that returns
  false, and not both.
\<close>

fun is_reconnect :: "call \<Rightarrow> bool" where
  "is_reconnect (ReconnectCall r) = True"
| "is_reconnect (ExecuteCall r) = False"

definition reconnect_calls :: "call list \<Rightarrow> nat" where
  "reconnect_calls calls = length (filter is_reconnect calls)"

definition failed_reconnects :: "execution \<Rightarrow> nat" where
  "failed_reconnects r = length (filter (\<lambda>made. made = ReconnectCall (Inr False)) (trace r))"

section \<open>The pool (pool_config.h, connection_pool.cpp)\<close>

text \<open>
  Of \<open>PoolConfig\<close>, the default backend fields and the two logging flags take part in no
  decision and are left out.
\<close>

record PoolConfig =
  minConnections :: u32
  maxConnections :: u32
  initConnections :: u32
  connectionTimeout :: u32
  maxIdleTime :: u32
  healthCheckPeriod :: u32
  reconnectInterval :: u32
  reconnectAttempts :: u32

definition PoolConfig_default :: PoolConfig where
  "PoolConfig_default =
     \<lparr>minConnections = 5, maxConnections = 20, initConnections = 5, connectionTimeout = 5000,
      maxIdleTime = 600000, healthCheckPeriod = 30000, reconnectInterval = 1000,
      reconnectAttempts = 3\<rparr>"

definition PoolConfig_isValid :: "PoolConfig \<Rightarrow> bool" where
  "PoolConfig_isValid config =
     (if minConnections config = 0 \<or> maxConnections config = 0 \<or>
         minConnections config > maxConnections config \<or>
         initConnections config > maxConnections config then False
      else if connectionTimeout config = 0 \<or> maxIdleTime config = 0 \<or>
              healthCheckPeriod config = 0 then False
      else True)"

text \<open>
  The pool holds shared pointers to sessions, and the same session can be reached through
  the idle queue, through the map of checked-out sessions and through its caller. So the
  sessions live in a store, \<open>sessions\<close>, and queue and map hold references into it;
  \<open>next_ref\<close> is the next reference \<open>make_shared\<close> hands out. The map of the source is
  keyed by the connection id, sixteen random characters drawn at construction; here the
  id of a session is its reference, so distinct sessions have distinct ids.
  \<open>m_totalConnections\<close> is a \<open>size_t\<close>. \<open>server\<close> holds what \<open>mysql_ping\<close> answers on
  each session at the moment, \<open>clock\<close> the wall clock in milliseconds, and \<open>balancer\<close> is
  the selector singleton.
\<close>

type_synonym conn_ref = nat

record pool =
  m_config :: PoolConfig
  m_idleConnections :: "conn_ref list"
  m_activeConnections :: "conn_ref \<rightharpoonup> conn_ref"
  m_totalConnections :: u64
  m_isRunning :: bool
  balancer :: LoadBalancer
  sessions :: "conn_ref \<Rightarrow> connection"
  server :: "conn_ref \<Rightarrow> ping_result"
  clock :: int
  next_ref :: conn_ref

definition getConnectionId :: "conn_ref \<Rightarrow> conn_ref" where
  "getConnectionId conn = conn"

definition close_session :: "conn_ref \<Rightarrow> pool \<Rightarrow> pool" where
  "close_session conn w = w\<lparr>sessions := (sessions w)(conn := close (sessions w conn))\<rparr>"

definition touch_session :: "conn_ref \<Rightarrow> pool \<Rightarrow> pool" where
  "touch_session conn w =
     w\<lparr>sessions := (sessions w)(conn := updateLastActiveTime (clock w) (sessions w conn))\<rparr>"

definition validateConnection :: "conn_ref option \<Rightarrow> bool \<Rightarrow> pool \<Rightarrow> bool \<times> pool" where
  "validateConnection connection allowReconnect w =
     (case connection of
        None \<Rightarrow> (False, w)
      | Some conn \<Rightarrow>
          (case isValid allowReconnect (server w conn) (clock w) (sessions w conn) of
             (valid, c) \<Rightarrow> (valid, w\<lparr>sessions := (sessions w)(conn := c)\<rparr>)))"

text \<open>
  What the outside answers during one \<open>createConnection\<close>: the numbers the selector's
  distribution gives, whether \<open>mysql_init\<close> returns a handle in the constructor, and whether
  \<open>mysql_real_connect\<close> succeeds. A session that fails to connect is destroyed at once
  and leaves no trace in the store.
\<close>

record create_answers =
  drawn :: uniform_int_distribution
  init_succeeds :: bool
  connect_succeeds :: bool

definition createConnection :: "create_answers \<Rightarrow> pool \<Rightarrow> (exn + conn_ref) \<times> pool" where
  "createConnection a w =
     (case getNextDatabase (drawn a) (balancer w) of
        (Inl e, lb) \<Rightarrow> (Inl e, w\<lparr>balancer := lb\<rparr>)
      | (Inr config, lb) \<Rightarrow>
          (let w1 = w\<lparr>balancer := lb\<rparr>
           in if \<not> init_succeeds a then (Inl InitFailed, w1)
              else
                (case connect (connect_succeeds a) (clock w1)
                        \<lparr>m_mysql = True, m_host = host config, m_user = user config,
                         m_password = password config, m_database = database config,
                         m_port = port config, m_creationTime = clock w1,
                         m_lastActiveTime = clock w1,
                         m_reconnectInterval = reconnectInterval (m_config w1),
                         m_reconnectAttempts = reconnectAttempts (m_config w1),
                         m_totalReconnectAttempts = 0, m_successfulReconnects = 0\<rparr> of
                   (conn_res, c) \<Rightarrow>
                     if \<not> conn_res then (Inl CannotCreateConnection, w1)
                     else (Inr (next_ref w1),
                           w1\<lparr>sessions := (sessions w1)(next_ref w1 := c),
                              next_ref := Suc (next_ref w1)\<rparr>))))"

subsection \<open>Acquire\<close>

text \<open>
  One iteration of the \<open>while (true)\<close> of \<open>getConnection\<close>. The answers for it are
  those of a \<open>createConnection\<close>, should the iteration call it, and whether
  \<open>wait_until\<close> times out, should the iteration wait. The result \<open>None\<close> says that the
  loop goes round again. A session that goes out of scope is closed by its destructor.
\<close>

record acquire_answers =
  creating :: create_answers
  wait_times_out :: bool

definition getConnection_iteration ::
  "u32 \<Rightarrow> acquire_answers \<Rightarrow> pool \<Rightarrow> (exn + conn_ref) option \<times> pool" where
  "getConnection_iteration timeout a w =
     (case m_idleConnections w of
        idelConnection # rest \<Rightarrow>
          (case validateConnection (Some idelConnection) False w of
             (True, w1) \<Rightarrow>
               (Some (Inr idelConnection),
                touch_session idelConnection
                  (w1\<lparr>m_idleConnections := rest,
                      m_activeConnections :=
                        (m_activeConnections w1)(getConnectionId idelConnection \<mapsto> idelConnection)\<rparr>))
           | (False, w1) \<Rightarrow> (None, w1\<lparr>m_totalConnections := m_totalConnections w1 - 1\<rparr>))
      | [] \<Rightarrow>
          (case (if m_totalConnections w < ucast (maxConnections (m_config w)) then
                   (case createConnection (creating a) w of
                      (Inl e, w1) \<Rightarrow> (None, w1)
                    | (Inr conn, w1) \<Rightarrow>
                        (case validateConnection (Some conn) False w1 of
                           (True, w2) \<Rightarrow>
                             (Some conn,
                              touch_session conn
                                (w2\<lparr>m_totalConnections := m_totalConnections w2 + 1,
                                    m_activeConnections :=
                                      (m_activeConnections w2)(getConnectionId conn \<mapsto> conn)\<rparr>))
                         | (False, w2) \<Rightarrow> (None, close_session conn w2)))
                 else (None, w)) of
             (Some conn, w3) \<Rightarrow> (Some (Inr conn), w3)
           | (None, w3) \<Rightarrow>
               if wait_times_out a then (Some (Inl (AcquireTimeout timeout)), w3)
               else (None, w3)))"

text \<open>
  The loop follows one element of the list per iteration; \<open>None\<close> says that it is still
  running when the list ends.
\<close>

fun getConnection_loop ::
  "u32 \<Rightarrow> acquire_answers list \<Rightarrow> pool \<Rightarrow> (exn + conn_ref) option \<times> pool" where
  "getConnection_loop timeout [] w = (None, w)"
| "getConnection_loop timeout (a # as) w =
     (case getConnection_iteration timeout a w of
        (Some r, w1) \<Rightarrow> (Some r, w1)
      | (None, w1) \<Rightarrow> getConnection_loop timeout as w1)"

definition getConnection ::
  "u32 \<Rightarrow> acquire_answers list \<Rightarrow> pool \<Rightarrow> (exn + conn_ref) option \<times> pool" where
  "getConnection timeout answers w =
     (if \<not> m_isRunning w then (Some (Inl PoolNotRunning), w)
      else getConnection_loop
             (if timeout = 0 then connectionTimeout (m_config w) else timeout) answers w)"

subsection \<open>Release\<close>

definition releaseConnection :: "conn_ref option \<Rightarrow> create_answers \<Rightarrow> pool \<Rightarrow> pool" where
  "releaseConnection connection a w =
     (case connection of
        None \<Rightarrow> w
      | Some c \<Rightarrow>
          (let w1 = w\<lparr>m_activeConnections := (m_activeConnections w)(getConnectionId c := None)\<rparr>
           in if m_totalConnections w1 > ucast (maxConnections (m_config w1)) then
                (close_session c w1)\<lparr>m_totalConnections := m_totalConnections w1 - 1\<rparr>
              else
                (case validateConnection (Some c) False w1 of
                   (True, w2) \<Rightarrow> w2\<lparr>m_idleConnections := m_idleConnections w2 @ [c]\<rparr>
                 | (False, w2) \<Rightarrow>
                     (let w3 = (close_session c w2)\<lparr>m_totalConnections := m_totalConnections w2 - 1\<rparr>
                      in if m_totalConnections w3 < ucast (minConnections (m_config w3)) then
                           (case createConnection a w3 of
                              (Inl e, w4) \<Rightarrow> w4
                            | (Inr conn, w4) \<Rightarrow>
                                (case validateConnection (Some conn) False w4 of
                                   (True, w5) \<Rightarrow>
                                     w5\<lparr>m_totalConnections := m_totalConnections w5 + 1,
                                        m_idleConnections := m_idleConnections w5 @ [conn]\<rparr>
                                 | (False, w5) \<Rightarrow> close_session conn w5))
                         else w3))))"

subsection \<open>Init\<close>

text \<open>
  The \<open>for\<close> loops of \<open>init\<close> and \<open>ensureMinimumConnections\<close> run a number of times
  fixed before they start; iteration \<open>i\<close> gets the answers \<open>answers i\<close>.
\<close>

fun init_loop ::
  "nat \<Rightarrow> nat \<Rightarrow> (nat \<Rightarrow> create_answers) \<Rightarrow> nat \<Rightarrow> pool \<Rightarrow> nat \<times> pool" where
  "init_loop 0 i answers createdConnections w = (createdConnections, w)"
| "init_loop (Suc todo) i answers createdConnections w =
     (case createConnection (answers i) w of
        (Inl e, w1) \<Rightarrow> init_loop todo (i + 1) answers createdConnections w1
      | (Inr conn, w1) \<Rightarrow>
          (case validateConnection (Some conn) False w1 of
             (False, w2) \<Rightarrow> init_loop todo (i + 1) answers createdConnections (close_session conn w2)
           | (True, w2) \<Rightarrow>
               init_loop todo (i + 1) answers (createdConnections + 1)
                 (w2\<lparr>m_idleConnections := m_idleConnections w2 @ [conn],
                     m_totalConnections := m_totalConnections w2 + 1\<rparr>)))"

definition init :: "PoolConfig \<Rightarrow> (nat \<Rightarrow> create_answers) \<Rightarrow> pool \<Rightarrow> (exn + unit) \<times> pool" where
  "init config answers w =
     (if m_isRunning w then (Inr (), w)
      else if \<not> PoolConfig_isValid config then (Inl ConfigNotValid, w)
      else
        (let w1 = w\<lparr>m_config := config\<rparr>;
             targetConnections = min (initConnections config) (maxConnections config)
         in case init_loop (unat targetConnections) 1 answers 0 w1 of
              (createdConnections, w2) \<Rightarrow>
                if targetConnections > 0 \<and> createdConnections = 0 then
                  (Inl NoConnectionsCreated,
                   (fold close_session (m_idleConnections w2) w2)
                     \<lparr>m_isRunning := False, m_idleConnections := [], m_totalConnections := 0\<rparr>)
                else (Inr (), w2\<lparr>m_isRunning := True\<rparr>)))"

subsection \<open>The health pass\<close>

fun cleanup_loop :: "int \<Rightarrow> conn_ref list \<Rightarrow> conn_ref list \<Rightarrow> pool \<Rightarrow> pool" where
  "cleanup_loop now [] keepConnections w = w\<lparr>m_idleConnections := keepConnections\<rparr>"
| "cleanup_loop now (conn # rest) keepConnections w =
     (if isValidQuietly (server w conn) (sessions w conn) then
        (let idelTime = now - m_lastActiveTime (sessions w conn)
         in if idelTime \<le> uint (maxIdleTime (m_config w)) then
              cleanup_loop now rest (keepConnections @ [conn]) w
            else if m_totalConnections w < ucast (minConnections (m_config w)) then
              cleanup_loop now rest (keepConnections @ [conn]) w
            else
              cleanup_loop now rest keepConnections
                ((close_session conn w)\<lparr>m_totalConnections := m_totalConnections w - 1\<rparr>))
      else
        cleanup_loop now rest keepConnections
          ((close_session conn w)\<lparr>m_totalConnections := m_totalConnections w - 1\<rparr>))"

definition cleanupIdleConnections :: "pool \<Rightarrow> pool" where
  "cleanupIdleConnections w = cleanup_loop (clock w) (m_idleConnections w) [] w"

fun ensure_loop :: "nat \<Rightarrow> nat \<Rightarrow> (nat \<Rightarrow> create_answers) \<Rightarrow> pool \<Rightarrow> (exn + unit) \<times> pool" where
  "ensure_loop 0 i answers w = (Inr (), w)"
| "ensure_loop (Suc todo) i answers w =
     (case createConnection (answers i) w of
        (Inl e, w1) \<Rightarrow> (Inl e, w1)
      | (Inr conn, w1) \<Rightarrow>
          (case validateConnection (Some conn) False w1 of
             (True, w2) \<Rightarrow>
               ensure_loop todo (i + 1) answers
                 (w2\<lparr>m_idleConnections := m_idleConnections w2 @ [conn],
                     m_totalConnections := m_totalConnections w2 + 1\<rparr>)
           | (False, w2) \<Rightarrow> ensure_loop todo (i + 1) answers (close_session conn w2)))"

definition ensureMinimumConnections ::
  "(nat \<Rightarrow> create_answers) \<Rightarrow> pool \<Rightarrow> (exn + unit) \<times> pool" where
  "ensureMinimumConnections answers w =
     (if m_totalConnections w < ucast (minConnections (m_config w)) then
        ensure_loop (unat (ucast (minConnections (m_config w)) - m_totalConnections w)) 1 answers w
      else (Inr (), w))"

definition performHealthCheck :: "(nat \<Rightarrow> create_answers) \<Rightarrow> pool \<Rightarrow> (exn + unit) \<times> pool" where
  "performHealthCheck answers w =
     (if \<not> m_isRunning w then (Inr (), w)
      else ensureMinimumConnections answers (cleanupIdleConnections w))"

subsection \<open>Reconfiguration\<close>

fun shrink_loop :: "u32 \<Rightarrow> conn_ref list \<Rightarrow> pool \<Rightarrow> pool" where
  "shrink_loop targetSize [] w = w\<lparr>m_idleConnections := []\<rparr>"
| "shrink_loop targetSize (conn # rest) w =
     (if m_totalConnections w > ucast targetSize then
        shrink_loop targetSize rest
          ((close_session conn w)\<lparr>m_totalConnections := m_totalConnections w - 1\<rparr>)
      else w\<lparr>m_idleConnections := conn # rest\<rparr>)"

definition shrinkPoolToSize :: "u32 \<Rightarrow> pool \<Rightarrow> pool" where
  "shrinkPoolToSize targetSize w =
     (if \<not> m_isRunning w then w
      else if m_totalConnections w \<le> ucast targetSize then w
      else shrink_loop targetSize (m_idleConnections w) w)"

definition adjustConfiguration :: "PoolConfig \<Rightarrow> pool \<Rightarrow> bool \<times> pool" where
  "adjustConfiguration newConfig w =
     (let w1 = w\<lparr>m_config := newConfig\<rparr>
      in if m_totalConnections w1 > ucast (maxConnections newConfig) then
           (True, shrinkPoolToSize (maxConnections newConfig) w1)
         else (True, w1))"

subsection \<open>Histories of a pool\<close>

text \<open>
  A pool starts as its constructor leaves it. What happens to it afterwards is a sequence
  of calls of its public operations, each with the answers the outside gives during the
  call, and of changes that come from outside the pool: servers that stop or resume
  answering pings, callers that use or close the sessions they hold, the selector being
  reconfigured, time passing.
\<close>

definition ConnectionPool ::
  "LoadBalancer \<Rightarrow> (conn_ref \<Rightarrow> connection) \<Rightarrow> (conn_ref \<Rightarrow> ping_result) \<Rightarrow> int \<Rightarrow> pool" where
  "ConnectionPool lb store srv now =
     \<lparr>m_config = PoolConfig_default, m_idleConnections = [], m_activeConnections = Map.empty,
      m_totalConnections = 0, m_isRunning = False, balancer = lb, sessions = store,
      server = srv, clock = now, next_ref = 0\<rparr>"

datatype event =
    Init PoolConfig "nat \<Rightarrow> create_answers"
  | Acquire u32 "acquire_answers list"
  | Release "conn_ref option" create_answers
  | HealthCheck "nat \<Rightarrow> create_answers"
  | Reconfigure PoolConfig
  | Outside LoadBalancer "conn_ref \<Rightarrow> connection" "conn_ref \<Rightarrow> ping_result" int

fun step :: "event \<Rightarrow> pool \<Rightarrow> pool" where
  "step (Init config answers) w = snd (init config answers w)"
| "step (Acquire timeout answers) w = snd (getConnection timeout answers w)"
| "step (Release connection a) w = releaseConnection connection a w"
| "step (HealthCheck answers) w = snd (performHealthCheck answers w)"
| "step (Reconfigure newConfig) w = snd (adjustConfiguration newConfig w)"
| "step (Outside lb store srv now) w =
     w\<lparr>balancer := lb, sessions := store, server := srv, clock := now\<rparr>"

fun run :: "event list \<Rightarrow> pool \<Rightarrow> pool" where
  "run [] w = w"
| "run (e # es) w = run es (step e w)"

text \<open>
  Two restrictions on a history. A session is released only while it is checked out; and
  no acquire finds a session at the head of the idle queue that fails validation.
\<close>

fun allowed :: "event \<Rightarrow> pool \<Rightarrow> bool" where
  "allowed (Release (Some c) a) w = (c \<in> dom (m_activeConnections w))"
| "allowed (Acquire timeout answers) w =
     (case m_idleConnections w of
        [] \<Rightarrow> True
      | idelConnection # rest \<Rightarrow> fst (validateConnection (Some idelConnection) False w))"
| "allowed e w = True"

fun orderly :: "event list \<Rightarrow> pool \<Rightarrow> bool" where
  "orderly [] w = True"
| "orderly (e # es) w = (allowed e w \<and> orderly es (step e w))"

subsection \<open>What it means for the pool's books to balance\<close>

text \<open>
  \<open>accounted idle active n fresh\<close>: the counter \<open>n\<close> is the number of idle sessions
  plus the number of checked-out sessions, no session is in the idle queue twice or both
  idle and checked out, and every session the pool holds was handed out by \<open>make_shared\<close>
  before \<open>fresh\<close>. A pool is consistent when its books balance in this sense and, while it
  is not running, it holds no session.
\<close>

definition accounted :: "conn_ref list \<Rightarrow> conn_ref set \<Rightarrow> u64 \<Rightarrow> conn_ref \<Rightarrow> bool" where
  "accounted idle active n fresh =
     (unat n = length idle + card active \<and> finite active \<and> distinct idle \<and>
      set idle \<inter> active = {} \<and> (\<forall>c\<in>set idle \<union> active. c < fresh))"

definition balanced :: "pool \<Rightarrow> bool" where
  "balanced w =
     accounted (m_idleConnections w) (dom (m_activeConnections w)) (m_totalConnections w)
       (next_ref w)"

definition consistent :: "pool \<Rightarrow> bool" where
  "consistent w =
     (accounted (m_idleConnections w) (dom (m_activeConnections w)) (m_totalConnections w)
        (next_ref w) \<and>
      (\<not> m_isRunning w \<longrightarrow> m_idleConnections w = [] \<and> dom (m_activeConnections w) = {}))"

section \<open>Concrete sessions and pools\<close>

text \<open>The values the theorems below are evaluated at.\<close>

definition example_session :: connection where
  "example_session =
     \<lparr>m_mysql = True, m_host = ''db1'', m_user = ''app'', m_password = ''secret'',
      m_database = ''shop'', m_port = 3306, m_creationTime = 0, m_lastActiveTime = 0,
      m_reconnectInterval = 1000, m_reconnectAttempts = 3, m_totalReconnectAttempts = 0,
      m_successfulReconnects = 0\<rparr>"

definition example_balancer :: LoadBalancer where
  "example_balancer =
     \<lparr>m_configs = [\<lparr>host = ''db1'', user = ''app'', password = ''secret'', database = ''shop'',
                    port = 3306, weight = 1\<rparr>],
      m_strategy = WEIGHTED, m_roundRobinIndex = 0\<rparr>"

definition example_config :: PoolConfig where
  "example_config =
     PoolConfig_default\<lparr>minConnections := 1, maxConnections := 2, initConnections := 1\<rparr>"

definition connecting :: create_answers where
  "connecting = \<lparr>drawn = (\<lambda>a b. a), init_succeeds = True, connect_succeeds = True\<rparr>"

text \<open>
  A running pool with the given idle queue, checked-out sessions and counter, in which
  every session is open and answers pings.
\<close>

definition example_pool :: "conn_ref list \<Rightarrow> conn_ref list \<Rightarrow> u64 \<Rightarrow> pool" where
  "example_pool idle active n =
     \<lparr>m_config = example_config, m_idleConnections = idle,
      m_activeConnections = map_of (zip active active), m_totalConnections = n,
      m_isRunning = True, balancer = example_balancer, sessions = (\<lambda>r. example_session),
      server = (\<lambda>r. PingOk), clock = 0, next_ref = 8\<rparr>"

definition stale_pool :: pool where
  "stale_pool = (example_pool [0] [] 1)\<lparr>server := (\<lambda>r. PingFailed 2006)\<rparr>"

definition idle_pool :: pool where
  "idle_pool = (example_pool [0] [] 1)\<lparr>clock := 600001\<rparr>"

definition stopped_pool :: pool where
  "stopped_pool = ConnectionPool example_balancer (\<lambda>r. example_session) (\<lambda>r. PingOk) 0"

text \<open>A selector over two backends with the given weights.\<close>

definition weighted_balancer :: "u32 \<Rightarrow> u32 \<Rightarrow> LoadBalancer" where
  "weighted_balancer w1 w2 =
     \<lparr>m_configs = [\<lparr>host = ''db1'', user = ''app'', password = ''secret'', database = ''shop'',
                    port = 3306, weight = w1\<rparr>,
                   \<lparr>host = ''db2'', user = ''app'', password = ''secret'', database = ''shop'',
                    port = 3306, weight = w2\<rparr>],
      m_strategy = WEIGHTED, m_roundRobinIndex = 0\<rparr>"

text \<open>
  An attempt during which a reconnect succeeds at once and the statement fails, with a
  transport error and with an SQL error.
\<close>

definition server_gone :: attempt_answers where
  "server_gone =
     \<lparr>reconnecting = \<lparr>init_ok = True, connects = [True]\<rparr>,
      executing = \<lparr>query_error = Some (''MySQL server has gone away'', 2006),
                   store_error = None, row_count = 0\<rparr>,
      clock_reading = 1\<rparr>"

definition syntax_error :: attempt_answers where
  "syntax_error =
     \<lparr>reconnecting = \<lparr>init_ok = True, connects = [True]\<rparr>,
      executing = \<lparr>query_error = Some (''You have an error in your SQL syntax'', 1064),
                   store_error = None, row_count = 0\<rparr>,
      clock_reading = 1\<rparr>"

definition tireless_session :: connection where
  "tireless_session = example_session\<lparr>m_reconnectAttempts := 4294967295\<rparr>"

text \<open>
  Two histories of a pool that starts stopped: one releases a session twice; the other
  acquires two sessions, returns them, and has a health pass and a reconfiguration in
  between.
\<close>

definition acquiring :: acquire_answers where
  "acquiring = \<lparr>creating = connecting, wait_times_out = True\<rparr>"

definition double_release :: "event list" where
  "double_release =
     [Init example_config (\<lambda>i. connecting), Acquire 0 [acquiring],
      Release (Some 0) connecting, Release (Some 0) connecting]"

definition quiet_day :: "event list" where
  "quiet_day =
     [Init example_config (\<lambda>i. connecting), Acquire 0 [acquiring], Acquire 0 [acquiring],
      Release (Some 0) connecting, HealthCheck (\<lambda>i. connecting),
      Reconfigure (example_config\<lparr>maxConnections := 1\<rparr>), Release (Some 1) connecting]"

section \<open>Transport error classification\<close>

text \<open>
  C9. The classifier answers true exactly on the kinds 2002, 2003, 2006, 2013, 2027 and
  2055; every other kind is not a transport error.
\<close>

theorem isConnectionError_iff:
  "isConnectionError e = (e \<in> {2002, 2003, 2006, 2013, 2027, 2055})"
  by (simp add: isConnectionError_def)

theorem isConnectionError_iff_witness:
  "isConnectionError 2013 \<and> \<not> isConnectionError 1064"
  using isConnectionError_iff [of 2013] isConnectionError_iff [of 1064] by simp

section \<open>The active validity check\<close>

text \<open>
  C1. On a session with a handle whose ping fails, \<open>isValid\<close> with \<open>tryReconnect\<close> set
  and a transport error kind answers true and stamps the last active time: it does not
  call \<open>reconnect\<close> and does not return what \<open>reconnect\<close> would. With \<open>tryReconnect\<close>
  unset, or with any other error kind, it answers false and leaves the session as it is.
  At the concrete session below every connect of a \<open>reconnect\<close> fails and \<open>reconnect\<close>
  returns false, while \<open>isValid\<close> returns true.
\<close>

theorem isValid_ping_failed:
  assumes "m_mysql c"
  shows "isValid tryReconnect (PingFailed e) now c =
           (if tryReconnect \<and> isConnectionError e then (True, updateLastActiveTime now c)
            else (False, c))"
  using assms by (simp add: isValid_def)

theorem isValid_ping_failed_witness:
  "isValid True (PingFailed 2006) 42 example_session =
     (True, example_session\<lparr>m_lastActiveTime := 42\<rparr>) \<and>
   reconnect \<lparr>init_ok = True, connects = [False, False, False]\<rparr> example_session =
     Some (Inr False, example_session\<lparr>m_totalReconnectAttempts := 3\<rparr>)"
proof -
  have h: "m_mysql example_session" by (simp add: example_session_def)
  have "isValid True (PingFailed 2006) 42 example_session =
     (True, example_session\<lparr>m_lastActiveTime := 42\<rparr>)"
    using isValid_ping_failed [OF h, of True 2006 42]
    by (simp add: isConnectionError_def updateLastActiveTime_def)
  moreover have "reconnect \<lparr>init_ok = True, connects = [False, False, False]\<rparr> example_session =
     Some (Inr False, example_session\<lparr>m_totalReconnectAttempts := 3\<rparr>)"
    by (simp add: reconnect_def example_session_def)
  ultimately show ?thesis by simp
qed

section \<open>Acquire with a non-empty idle queue\<close>

lemma validateConnection_simps:
  "fst (validateConnection (Some conn) False w) = (m_mysql (sessions w conn) \<and> server w conn = PingOk)"
  "snd (validateConnection (Some conn) False w) =
     (if m_mysql (sessions w conn) \<and> server w conn = PingOk then touch_session conn w else w)"
  by (auto simp: validateConnection_def isValid_def touch_session_def split: ping_result.splits)

text \<open>
  C3. One iteration of the loop of \<open>getConnection\<close> on a non-empty idle queue. When the
  head validates, it is taken off the queue, entered into the checked-out map and
  returned, and the counter is unchanged. When the head fails validation, the counter is
  decremented by one and the loop goes round again, but the head is not taken off the
  queue: the idle queue is what it was.
\<close>

theorem getConnection_iteration_idle:
  assumes "m_idleConnections w = conn # rest"
  shows "(fst (validateConnection (Some conn) False w) \<longrightarrow>
            fst (getConnection_iteration timeout a w) = Some (Inr conn) \<and>
            m_idleConnections (snd (getConnection_iteration timeout a w)) = rest \<and>
            m_activeConnections (snd (getConnection_iteration timeout a w)) =
              (m_activeConnections w)(conn \<mapsto> conn) \<and>
            m_totalConnections (snd (getConnection_iteration timeout a w)) = m_totalConnections w) \<and>
         (\<not> fst (validateConnection (Some conn) False w) \<longrightarrow>
            fst (getConnection_iteration timeout a w) = None \<and>
            m_totalConnections (snd (getConnection_iteration timeout a w)) = m_totalConnections w - 1 \<and>
            m_idleConnections (snd (getConnection_iteration timeout a w)) = conn # rest)"
  using assms
  by (cases "validateConnection (Some conn) False w")
     (auto simp: getConnection_iteration_def getConnectionId_def touch_session_def validateConnection_def
           split: prod.splits bool.splits)

theorem getConnection_iteration_idle_witness:
  "fst (getConnection_iteration 5000 \<lparr>creating = connecting, wait_times_out = True\<rparr> stale_pool) = None \<and>
   m_totalConnections (snd (getConnection_iteration 5000 \<lparr>creating = connecting, wait_times_out = True\<rparr> stale_pool)) = 0 \<and>
   m_idleConnections (snd (getConnection_iteration 5000 \<lparr>creating = connecting, wait_times_out = True\<rparr> stale_pool)) = [0]"
proof -
  have h: "m_idleConnections stale_pool = 0 # []" by (simp add: stale_pool_def example_pool_def)
  have v: "\<not> fst (validateConnection (Some 0) False stale_pool)"
    by (simp add: validateConnection_simps stale_pool_def example_pool_def)
  have t: "m_totalConnections stale_pool = 1" by (simp add: stale_pool_def example_pool_def)
  show ?thesis
    using getConnection_iteration_idle [OF h, of 5000 "\<lparr>creating = connecting, wait_times_out = True\<rparr>"] v t
    by simp
qed

section \<open>Init on a running pool or with an invalid configuration\<close>

text \<open>
  The claim C4 as it is written fails on a running pool: \<open>init\<close> returns normally.
\<close>

theorem init_on_running_pool_counterexample:
  "m_isRunning (example_pool [0] [] 1) \<and>
   init example_config (\<lambda>i. connecting) (example_pool [0] [] 1) = (Inr (), example_pool [0] [] 1)"
  by (simp add: init_def example_pool_def)

text \<open>
  C4, amended. \<open>init\<close> on a running pool returns without an error and leaves the pool
  as it is. \<open>init\<close> on a pool that is not running, with a configuration that has
  \<open>min = 0\<close>, \<open>max = 0\<close>, \<open>min > max\<close>, \<open>init > max\<close> or a timeout that is 0,
  raises an error and leaves the pool as it is.
\<close>

theorem init_refused:
  "(m_isRunning w \<longrightarrow> init config answers w = (Inr (), w)) \<and>
   (\<not> m_isRunning w \<longrightarrow>
      (minConnections config = 0 \<or> maxConnections config = 0 \<or>
       minConnections config > maxConnections config \<or>
       initConnections config > maxConnections config \<or>
       connectionTimeout config = 0 \<or> maxIdleTime config = 0 \<or> healthCheckPeriod config = 0) \<longrightarrow>
      init config answers w = (Inl ConfigNotValid, w))"
  by (auto simp: init_def PoolConfig_isValid_def)

theorem init_refused_witness:
  "init example_config (\<lambda>i. connecting) (example_pool [0] [] 1) = (Inr (), example_pool [0] [] 1) \<and>
   init (example_config\<lparr>maxIdleTime := 0\<rparr>) (\<lambda>i. connecting) stopped_pool =
     (Inl ConfigNotValid, stopped_pool)"
proof -
  have r: "m_isRunning (example_pool [0] [] 1)" by (simp add: example_pool_def)
  have s: "\<not> m_isRunning stopped_pool" by (simp add: stopped_pool_def ConnectionPool_def)
  have z: "maxIdleTime (example_config\<lparr>maxIdleTime := 0\<rparr>) = 0" by simp
  show ?thesis
    using init_refused [of "example_pool [0] [] 1" example_config "\<lambda>i. connecting"]
      init_refused [of stopped_pool "example_config\<lparr>maxIdleTime := 0\<rparr>" "\<lambda>i. connecting"] r s z
    by blast
qed

section \<open>Cleanup of idle sessions at the minimum\<close>

text \<open>
  C5. A cleanup pass over a pool that holds exactly \<open>minConnections\<close> sessions, one of
  them idle, valid and idle for longer than \<open>maxIdleTime\<close>: the session is discarded, and
  the pass ends with one session less than \<open>minConnections\<close>. The test for keeping such
  a session is \<open>m_totalConnections < minConnections\<close>, which is false at the minimum.
\<close>

theorem cleanupIdleConnections_at_minimum:
  assumes "m_idleConnections w = [conn]"
    and "isValidQuietly (server w conn) (sessions w conn)"
    and "clock w - m_lastActiveTime (sessions w conn) > uint (maxIdleTime (m_config w))"
    and "m_totalConnections w = ucast (minConnections (m_config w))"
  shows "m_idleConnections (cleanupIdleConnections w) = [] \<and>
         m_totalConnections (cleanupIdleConnections w) = ucast (minConnections (m_config w)) - 1"
  using assms by (simp add: cleanupIdleConnections_def close_session_def)

theorem cleanupIdleConnections_at_minimum_witness:
  "minConnections (m_config idle_pool) = 1 \<and> m_totalConnections idle_pool = 1 \<and>
   m_idleConnections (cleanupIdleConnections idle_pool) = [] \<and>
   m_totalConnections (cleanupIdleConnections idle_pool) = 0"
proof -
  have 1: "m_idleConnections idle_pool = [0]"
    by (simp add: idle_pool_def example_pool_def)
  have 2: "isValidQuietly (server idle_pool 0) (sessions idle_pool 0)"
    by (simp add: idle_pool_def example_pool_def isValidQuietly_def example_session_def)
  have 3: "clock idle_pool - m_lastActiveTime (sessions idle_pool 0) > uint (maxIdleTime (m_config idle_pool))"
    by (simp add: idle_pool_def example_pool_def example_session_def example_config_def PoolConfig_default_def)
  have 4: "m_totalConnections idle_pool = ucast (minConnections (m_config idle_pool))"
    by (simp add: idle_pool_def example_pool_def example_config_def)
  have 5: "minConnections (m_config idle_pool) = 1"
    by (simp add: idle_pool_def example_pool_def example_config_def)
  show ?thesis using cleanupIdleConnections_at_minimum [OF 1 2 3 4] 4 5 by simp
qed

section \<open>Releasing a session that is not checked out\<close>

text \<open>
  The claim C10 as it is written fails on a pool that holds more sessions than
  \<open>maxConnections\<close>: there a released session is closed and the counter decremented,
  valid or not, checked out or not, and nothing is pushed onto the idle queue. Below,
  three sessions are checked out of a pool whose \<open>maxConnections\<close> is 2, and a valid
  session that the pool never handed out is released.
\<close>

theorem releaseConnection_over_capacity_counterexample:
  "m_activeConnections (example_pool [] [0, 1, 2] 3) 5 = None \<and>
   fst (validateConnection (Some 5) False (example_pool [] [0, 1, 2] 3)) \<and>
   m_idleConnections (releaseConnection (Some 5) connecting (example_pool [] [0, 1, 2] 3)) = [] \<and>
   m_totalConnections (releaseConnection (Some 5) connecting (example_pool [] [0, 1, 2] 3)) = 2"
  by (simp add: validateConnection_simps releaseConnection_def example_pool_def example_config_def
      example_session_def close_session_def)

lemma releaseConnection_valid:
  assumes "m_totalConnections w \<le> ucast (maxConnections (m_config w))"
    and "m_mysql (sessions w c)" and "server w c = PingOk"
  shows "releaseConnection (Some c) a w =
           touch_session c (w\<lparr>m_activeConnections := (m_activeConnections w)(c := None),
                              m_idleConnections := m_idleConnections w @ [c]\<rparr>)"
  using assms
  by (simp add: releaseConnection_def validateConnection_def isValid_def getConnectionId_def
      touch_session_def not_less [symmetric])

text \<open>
  C10, amended. \<open>releaseConnection\<close> does not look whether the session is in the
  checked-out map. In a pool that holds no more than \<open>maxConnections\<close> sessions,
  releasing a session that is open and answers pings pushes it onto the idle queue and
  leaves the counter unchanged, whether or not the session was checked out; releasing it
  a second time pushes it a second time, so that it occupies two slots of the queue.
\<close>

theorem releaseConnection_twice:
  assumes "m_totalConnections w \<le> ucast (maxConnections (m_config w))"
    and "m_mysql (sessions w c)" and "server w c = PingOk"
  shows "m_idleConnections (releaseConnection (Some c) a w) = m_idleConnections w @ [c] \<and>
         m_totalConnections (releaseConnection (Some c) a w) = m_totalConnections w \<and>
         m_idleConnections (releaseConnection (Some c) a' (releaseConnection (Some c) a w)) =
           m_idleConnections w @ [c, c] \<and>
         m_totalConnections (releaseConnection (Some c) a' (releaseConnection (Some c) a w)) =
           m_totalConnections w"
proof -
  let ?w1 = "releaseConnection (Some c) a w"
  have w1: "?w1 = touch_session c (w\<lparr>m_activeConnections := (m_activeConnections w)(c := None),
                              m_idleConnections := m_idleConnections w @ [c]\<rparr>)"
    by (rule releaseConnection_valid [OF assms])
  have a1: "m_totalConnections ?w1 \<le> ucast (maxConnections (m_config ?w1))"
    using assms(1) by (simp add: w1 touch_session_def)
  have a2: "m_mysql (sessions ?w1 c)"
    using assms(2) by (simp add: w1 touch_session_def updateLastActiveTime_def)
  have a3: "server ?w1 c = PingOk"
    using assms(3) by (simp add: w1 touch_session_def)
  have w2: "releaseConnection (Some c) a' ?w1 =
      touch_session c (?w1\<lparr>m_activeConnections := (m_activeConnections ?w1)(c := None),
                              m_idleConnections := m_idleConnections ?w1 @ [c]\<rparr>)"
    by (rule releaseConnection_valid [OF a1 a2 a3])
  show ?thesis
    by (simp add: w2 touch_session_def) (simp add: w1 touch_session_def)
qed

theorem releaseConnection_twice_witness:
  "m_activeConnections (example_pool [] [0] 1) 1 = None \<and>
   m_idleConnections (releaseConnection (Some 1) connecting (releaseConnection (Some 1) connecting (example_pool [] [0] 1))) = [1, 1] \<and>
   m_totalConnections (releaseConnection (Some 1) connecting (releaseConnection (Some 1) connecting (example_pool [] [0] 1))) = 1"
proof -
  have 1: "m_totalConnections (example_pool [] [0] 1) \<le> ucast (maxConnections (m_config (example_pool [] [0] 1)))"
    by (simp add: example_pool_def example_config_def)
  have 2: "m_mysql (sessions (example_pool [] [0] 1) 1)"
    by (simp add: example_pool_def example_session_def)
  have 3: "server (example_pool [] [0] 1) 1 = PingOk"
    by (simp add: example_pool_def)
  show ?thesis
    using releaseConnection_twice [OF 1 2 3, of connecting connecting]
    by (simp add: example_pool_def)
qed

section \<open>The backoff delay\<close>

lemma unat_shift_one:
  assumes "n < 32"
  shows "unat (2 ^ n :: u32) = 2 ^ n"
proof -
  have "(2 :: nat) ^ n < 2 ^ 32" using assms by (rule power_strict_increasing) simp
  moreover have "unat (of_nat (2 ^ n) :: u32) = 2 ^ n mod 2 ^ LENGTH(32)"
    by (rule unat_of_nat)
  ultimately show ?thesis by simp
qed

lemma exponentialDelay_exact:
  assumes "n < 32" and "unat b * 2 ^ n < 2 ^ 32"
  shows "unat (b * 2 ^ n :: u32) = unat b * 2 ^ n"
proof -
  have "unat (b * 2 ^ n :: u32) = (unat b * unat (2 ^ n :: u32)) mod 2 ^ 32"
    by (simp add: unat_word_ariths)
  also have "\<dots> = (unat b * 2 ^ n) mod 2 ^ 32"
    using assms(1) by (simp add: unat_shift_one)
  also have "\<dots> = unat b * 2 ^ n"
    using assms(2) by simp
  finally show ?thesis .
qed

lemma unat_min: "unat (min (a :: u32) b) = min (unat a) (unat b)"
  by (simp add: min_def word_le_nat_alt)

declare ilog2.simps [simp del]

lemma ilog2_bounds: "1 \<le> n \<Longrightarrow> 2 ^ ilog2 n \<le> n \<and> n < 2 ^ Suc (ilog2 n)"
proof (induction n rule: ilog2.induct)
  case (1 n)
  show ?case
  proof (cases "n < 2")
    case True
    then show ?thesis using 1 by (simp add: ilog2.simps)
  next
    case False
    then have "1 \<le> n div 2" by simp
    then have "2 ^ ilog2 (n div 2) \<le> n div 2 \<and> n div 2 < 2 ^ Suc (ilog2 (n div 2))"
      using 1 False by simp
    then show ?thesis using False by (subst (1 2) ilog2.simps) auto
  qed
qed

lemma exponent_bounds:
  assumes "0 < x"
  shows "2 powi exponent x \<le> x" and "x < 2 powi (exponent x + 1)"
proof -
  have "2 powi exponent x \<le> x \<and> x < 2 powi (exponent x + 1)"
  proof (cases "1 \<le> x")
    case True
    define n where "n = nat \<lfloor>x\<rfloor>"
    have n: "1 \<le> n" using True by (simp add: n_def le_nat_floor)
    have lo: "real n \<le> x" using True by (simp add: n_def)
    have up: "x < real n + 1" unfolding n_def using True by linarith
    from ilog2_bounds [OF n] have b: "2 ^ ilog2 n \<le> n" and c: "n + 1 \<le> 2 ^ Suc (ilog2 n)" by simp_all
    have "real (2 ^ ilog2 n) \<le> real n" using b by (simp only: of_nat_le_iff)
    then have "(2 :: real) ^ ilog2 n \<le> real n" by simp
    moreover have "real (n + 1) \<le> real (2 ^ Suc (ilog2 n))" using c by (simp only: of_nat_le_iff)
    then have "real n + 1 \<le> 2 ^ Suc (ilog2 n)" by simp
    moreover have e: "exponent x = int (ilog2 n)" using True by (simp add: exponent_def n_def)
    moreover have "int (ilog2 n) + 1 = int (Suc (ilog2 n))" by simp
    ultimately show ?thesis using lo up
      by (simp only: e power_int_of_nat) linarith
  next
    case False
    define y where "y = 1 / x"
    define n where "n = nat \<lfloor>y\<rfloor>"
    define k where "k = ilog2 n"
    have y1: "1 < y" using False assms by (simp add: y_def)
    have x: "x = 1 / y" by (simp add: y_def)
    have n: "1 \<le> n" using y1 by (simp add: n_def le_nat_floor)
    have lo: "real n \<le> y" using y1 by (simp add: n_def)
    have up: "y < real n + 1" unfolding n_def using y1 by linarith
    from ilog2_bounds [OF n] have b: "2 ^ k \<le> n" and c: "n + 1 \<le> 2 ^ Suc k" by (simp_all add: k_def)
    have "real (2 ^ k) \<le> real n" using b by (simp only: of_nat_le_iff)
    then have "(2 :: real) ^ k \<le> real n" by simp
    then have yk: "2 ^ k \<le> y" using lo by linarith
    have "real (n + 1) \<le> real (2 ^ Suc k)" using c by (simp only: of_nat_le_iff)
    then have "real n + 1 \<le> 2 ^ Suc k" by simp
    then have yk': "y < 2 ^ Suc k" using up by linarith
    have xk: "x \<le> 1 / 2 ^ k" unfolding x using yk y1 by (simp add: frac_le)
    have xk': "1 / 2 ^ Suc k < x" unfolding x using yk' y1 by (simp add: frac_less2)
    have e: "exponent x = (if x * 2 ^ k = 1 then - int k else - int k - 1)"
      using False by (simp add: exponent_def Let_def k_def n_def y_def)
    have p1: "(2 :: real) powi (- int k) = 1 / 2 ^ k"
      by (simp add: power_int_minus field_simps)
    have p2: "(2 :: real) powi (- int k - 1) = 1 / 2 ^ Suc k"
      by (simp add: power_int_diff power_int_minus field_simps)
    have "(2 :: real) powi (- int k + 1) = 2 powi (- int k) * 2 powi 1"
      by (rule power_int_add) simp
    then have p3: "(2 :: real) powi (- int k + 1) = 2 / 2 ^ k"
      by (simp only: p1) simp
    show ?thesis
    proof (cases "x * 2 ^ k = 1")
      case True
      then have e': "exponent x = - int k" by (simp add: e)
      have "x = 1 / 2 ^ k" using True by (simp add: field_simps)
      moreover have "(1 :: real) / 2 ^ k < 2 / 2 ^ k" by (simp add: divide_strict_right_mono)
      ultimately have "2 powi (- int k) \<le> x" and "x < 2 powi (- int k + 1)"
        by (simp_all only: p1 p3)
      then show ?thesis by (simp only: e')
    next
      case ne: False
      then have e': "exponent x = - int k - 1" by (simp add: e)
      have "x \<noteq> 1 / 2 ^ k" using ne by (simp add: field_simps)
      then have "x < 1 / 2 ^ k" using xk by simp
      then have "x < 2 powi (- int k)" by (simp only: p1)
      then have "x < 2 powi (- int k - 1 + 1)" by simp
      moreover have "2 powi (- int k - 1) \<le> x" using xk' by (simp only: p2)
      ultimately show ?thesis by (simp only: e')
    qed
  qed
  then show "2 powi exponent x \<le> x" and "x < 2 powi (exponent x + 1)" by simp_all
qed

lemma exponent_below:
  assumes "0 < x" and "x < 2 ^ n"
  shows "exponent x < int n"
proof (rule ccontr)
  assume "\<not> exponent x < int n"
  then have "int n \<le> exponent x" by simp
  then have "(2 :: real) powi int n \<le> 2 powi exponent x"
    by (intro power_int_increasing) simp_all
  then have "(2 :: real) ^ n \<le> x" using exponent_bounds(1) [OF assms(1)] by (simp add: power_int_of_nat)
  then show False using assms(2) by simp
qed

lemma roundTiesToEven_bounds: "\<lfloor>x\<rfloor> \<le> roundTiesToEven x" "roundTiesToEven x \<le> \<lceil>x\<rceil>"
proof -
  show "\<lfloor>x\<rfloor> \<le> roundTiesToEven x" by (simp add: roundTiesToEven_def Let_def)
  have "x - of_int \<lfloor>x\<rfloor> < 1 / 2 \<or> \<lfloor>x\<rfloor> + 1 \<le> \<lceil>x\<rceil>"
    by (cases "x = of_int \<lfloor>x\<rfloor>") (simp, linarith)
  moreover have "\<lfloor>x\<rfloor> \<le> \<lceil>x\<rceil>" by linarith
  ultimately show "roundTiesToEven x \<le> \<lceil>x\<rceil>"
    by (auto simp: roundTiesToEven_def Let_def)
qed

lemma roundTiesToEven_grid:
  "of_int N \<le> x \<Longrightarrow> N \<le> roundTiesToEven x"
  "x \<le> of_int N \<Longrightarrow> roundTiesToEven x \<le> N"
proof -
  assume "of_int N \<le> x"
  then have "N \<le> \<lfloor>x\<rfloor>" by (simp add: le_floor_iff)
  then show "N \<le> roundTiesToEven x" using roundTiesToEven_bounds(1) [of x] by linarith
next
  assume "x \<le> of_int N"
  then have "\<lceil>x\<rceil> \<le> N" by (simp add: ceiling_le_iff)
  then show "roundTiesToEven x \<le> N" using roundTiesToEven_bounds(2) [of x] by linarith
qed

lemma binary64_grid:
  assumes "0 \<le> x" and "x < 2 ^ 49" and "y = of_int k / 8"
  shows "x \<le> y \<Longrightarrow> binary64 x \<le> y" and "y \<le> x \<Longrightarrow> y \<le> binary64 x"
proof -
  have "(x \<le> y \<longrightarrow> binary64 x \<le> y) \<and> (y \<le> x \<longrightarrow> y \<le> binary64 x)"
  proof (cases "x = 0")
    case True
    then show ?thesis by (simp add: binary64_def)
  next
    case False
    then have pos: "0 < x" using assms(1) by simp
    define e where "e = max (exponent x) (- 1022)"
    define q :: real where "q = 2 powi (e - 52)"
    have "exponent x < 49" using exponent_below [OF pos, of 49] assms(2) by simp
    then have e: "e \<le> 48" by (simp add: e_def)
    have q: "0 < q" by (simp add: q_def)
    have b: "binary64 x = of_int (roundTiesToEven (x / q)) * q"
      using pos by (simp add: binary64_def Let_def q_def e_def)
    define m where "m = nat (49 - e)"
    define N where "N = k * 2 ^ m"
    have "e - 52 = - int (m + 3)" using e by (simp add: m_def)
    then have "q = 2 powi (- int (m + 3))" by (simp only: q_def)
    also have "\<dots> = inverse (2 ^ (m + 3))" by (simp only: power_int_minus power_int_of_nat)
    also have "\<dots> = 1 / (2 ^ m * 8)" by (simp add: power_add field_simps)
    finally have "y / q = of_int N"
      by (simp add: assms(3) N_def)
    then have y: "y = of_int N * q" using q by (simp add: field_simps)
    show ?thesis
    proof (intro conjI impI)
      assume "x \<le> y"
      then have "x / q \<le> of_int N" using q by (simp add: y field_simps)
      then have "roundTiesToEven (x / q) \<le> N" by (rule roundTiesToEven_grid(2))
      then have "of_int (roundTiesToEven (x / q)) * q \<le> of_int N * q"
        using q by (simp add: mult_right_mono)
      then show "binary64 x \<le> y" by (simp only: b y)
    next
      assume "y \<le> x"
      then have "of_int N \<le> x / q" using q by (simp add: y field_simps)
      then have "N \<le> roundTiesToEven (x / q)" by (rule roundTiesToEven_grid(1))
      then have "of_int N * q \<le> of_int (roundTiesToEven (x / q)) * q"
        using q by (simp add: mult_right_mono)
      then show "y \<le> binary64 x" by (simp only: b y)
    qed
  qed
  then show "x \<le> y \<Longrightarrow> binary64 x \<le> y" and "y \<le> x \<Longrightarrow> y \<le> binary64 x" by simp_all
qed


text \<open>
  What truncation makes of a rounded product of a delay of at most 30000 and a factor
  from 0.8 to 1.2: rounding moves the product to its floor or to its ceiling at most, and
  not past a multiple of one eighth.
\<close>

lemma truncate_bounds:
  fixes m :: nat and j :: real
  assumes "0.8 \<le> j" and "j \<le> 1.2" and "m \<le> 30000"
  defines "d \<equiv> nat \<lfloor>max 1 (binary64 (real m * j))\<rfloor>"
  shows "1 \<le> d" and "0.8 * real m - 1 < real d" and "real d \<le> max 1 (1.2 * real m)"
    and "nat \<lfloor>real m * j\<rfloor> \<le> d" and "int d \<le> max 1 \<lceil>real m * j\<rceil>" and "d \<le> 36000"
proof -
  define x where "x = real m * j"
  define f where "f = binary64 x"
  define t :: int where "t = (6 * int m) div 5"
  have d: "d = nat \<lfloor>max 1 f\<rfloor>" by (simp only: d_def f_def x_def)
  have "real m * 0.8 \<le> real m * j" using assms(1) by (intro mult_left_mono) simp_all
  then have lo: "0.8 * real m \<le> x" by (simp add: x_def)
  have "real m * j \<le> real m * 1.2" using assms(2) by (intro mult_left_mono) simp_all
  then have hi: "x \<le> 1.2 * real m" by (simp add: x_def)
  have "0 \<le> j" using assms(1) by simp
  then have x0: "0 \<le> x" unfolding x_def by (intro mult_nonneg_nonneg) simp_all
  have "real m \<le> 30000" using assms(3) by simp
  then have x36: "x \<le> 36000" using hi by linarith
  then have x1: "x < 2 ^ 49" by simp
  have g1: "of_int \<lfloor>x\<rfloor> = (of_int (8 * \<lfloor>x\<rfloor>) :: real) / 8" by simp
  have "of_int \<lfloor>x\<rfloor> \<le> x" by (rule of_int_floor_le)
  then have "of_int \<lfloor>x\<rfloor> \<le> f"
    unfolding f_def by (rule binary64_grid(2) [OF x0 x1 g1])
  then have "\<lfloor>of_int \<lfloor>x\<rfloor> :: real\<rfloor> \<le> \<lfloor>f\<rfloor>" by (rule floor_mono)
  then have below: "\<lfloor>x\<rfloor> \<le> \<lfloor>f\<rfloor>" by (simp only: floor_of_int)
  have g2: "of_int \<lceil>x\<rceil> = (of_int (8 * \<lceil>x\<rceil>) :: real) / 8" by simp
  have "x \<le> of_int \<lceil>x\<rceil>" by (rule le_of_int_ceiling)
  then have "f \<le> of_int \<lceil>x\<rceil>"
    unfolding f_def by (rule binary64_grid(1) [OF x0 x1 g2])
  then have "\<lfloor>f\<rfloor> \<le> \<lfloor>of_int \<lceil>x\<rceil> :: real\<rfloor>" by (rule floor_mono)
  then have above: "\<lfloor>f\<rfloor> \<le> \<lceil>x\<rceil>" by (simp only: floor_of_int)
  have "6 * int m = 5 * t + (6 * int m) mod 5" by (simp add: t_def)
  moreover have "(6 * int m) mod 5 \<le> 4" by simp
  ultimately have "6 * int m \<le> 5 * t + 4" by linarith
  then have "(of_int (6 * int m) :: real) \<le> of_int (5 * t + 4)" by (simp only: of_int_le_iff)
  then have "6 * real m \<le> 5 * of_int t + 4" by simp
  then have "1.2 * real m \<le> of_int t + 7 / 8" by simp
  then have xt: "x \<le> of_int t + 7 / 8" using hi by linarith
  have g3: "of_int t + 7 / 8 = (of_int (8 * t + 7) :: real) / 8" by simp
  have "f \<le> of_int t + 7 / 8"
    unfolding f_def using xt by (rule binary64_grid(1) [OF x0 x1 g3])
  then have "f < of_int (t + 1)" by simp
  then have "\<lfloor>f\<rfloor> < t + 1" by (simp only: floor_less_iff)
  then have ft: "\<lfloor>f\<rfloor> \<le> t" by simp
  have "5 * t \<le> 6 * int m" by (simp add: t_def)
  then have "(of_int (5 * t) :: real) \<le> of_int (6 * int m)" by (simp only: of_int_le_iff)
  then have "5 * of_int t \<le> 6 * real m" by simp
  then have t: "of_int t \<le> 1.2 * real m" by simp
  have m1: "\<lfloor>max 1 f\<rfloor> = max 1 \<lfloor>f\<rfloor>"
  proof (cases "1 \<le> f")
    case True
    then have "1 \<le> \<lfloor>f\<rfloor>" by (simp add: le_floor_iff)
    then show ?thesis using True by (simp add: max_def)
  next
    case False
    then have "f < of_int 1" by simp
    then have "\<lfloor>f\<rfloor> < 1" by (simp only: floor_less_iff)
    then show ?thesis using False by (simp add: max_def)
  qed
  have r: "int d = max 1 \<lfloor>f\<rfloor>" by (simp add: d m1)
  have rd: "real d = of_int (max 1 \<lfloor>f\<rfloor>)" by (simp only: r [symmetric] of_int_of_nat_eq)
  show "1 \<le> d" using r by linarith
  have "x - 1 < of_int \<lfloor>x\<rfloor>" by linarith
  moreover have "(of_int \<lfloor>x\<rfloor> :: real) \<le> of_int (max 1 \<lfloor>f\<rfloor>)"
  proof -
    have "\<lfloor>x\<rfloor> \<le> max 1 \<lfloor>f\<rfloor>" using below by simp
    then show ?thesis by (simp only: of_int_le_iff)
  qed
  ultimately show "0.8 * real m - 1 < real d" using lo unfolding rd by linarith
  have "max 1 \<lfloor>f\<rfloor> \<le> max 1 t" using ft by simp
  then have "(of_int (max 1 \<lfloor>f\<rfloor>) :: real) \<le> of_int (max 1 t)" by (simp only: of_int_le_iff)
  moreover have "(of_int (max 1 t) :: real) \<le> max 1 (1.2 * real m)" using t by (simp add: max_def)
  ultimately show "real d \<le> max 1 (1.2 * real m)" unfolding rd by linarith
  have "\<lfloor>x\<rfloor> \<le> int d" using r below by linarith
  then show "nat \<lfloor>real m * j\<rfloor> \<le> d" unfolding x_def by linarith
  show "int d \<le> max 1 \<lceil>real m * j\<rceil>" using r above unfolding x_def by linarith
  have "t \<le> 36000" using assms(3) by (simp add: t_def)
  then show "d \<le> 36000" using r ft by linarith
qed

text \<open>
  The claim C7 as it is written fails where the conversion to \<open>unsigned int\<close> truncates
  below the lower bound (base 3, first attempt, jitter 0.875: the delay is 2, the bound
  2.4; so it is with every jitter below 1), and where the floor of 1 ms exceeds the upper
  bound (base 0).
\<close>

theorem calculateReconnectDelay_counterexample:
  "calculateReconnectDelay 0.875 1 (example_session\<lparr>m_reconnectInterval := 3\<rparr>) = Some 2 \<and>
   real (unat (2 :: u32)) < 0.8 * min (3 * 2 ^ (1 - 1)) 30000 \<and>
   calculateReconnectDelay 1 1 (example_session\<lparr>m_reconnectInterval := 0\<rparr>) = Some 1 \<and>
   1.2 * min (0 * 2 ^ (1 - 1)) 30000 < real (unat (1 :: u32))"
proof -
  have "calculateReconnectDelay 0.875 1 (example_session\<lparr>m_reconnectInterval := 3\<rparr>) = Some 2"
    by code_simp
  moreover have "calculateReconnectDelay 1 1 (example_session\<lparr>m_reconnectInterval := 0\<rparr>) = Some 1"
    by code_simp
  ultimately show ?thesis by simp
qed

theorem calculateReconnectDelay_bounds:
  assumes "1 \<le> unat attempt" and "unat attempt \<le> 32"
    and "unat (m_reconnectInterval c) * 2 ^ (unat attempt - 1) < 2 ^ 32"
    and "0.8 \<le> jitter" and "jitter \<le> 1.2"
  shows "\<exists>delay. calculateReconnectDelay jitter attempt c = Some delay \<and>
           unat delay = nat \<lfloor>max 1 (binary64 (real (min (unat (m_reconnectInterval c) * 2 ^ (unat attempt - 1)) 30000) * jitter))\<rfloor> \<and>
           1 \<le> unat delay \<and>
           0.8 * real (min (unat (m_reconnectInterval c) * 2 ^ (unat attempt - 1)) 30000) - 1 < real (unat delay) \<and>
           real (unat delay) \<le> max 1 (1.2 * real (min (unat (m_reconnectInterval c) * 2 ^ (unat attempt - 1)) 30000)) \<and>
           nat \<lfloor>real (min (unat (m_reconnectInterval c) * 2 ^ (unat attempt - 1)) 30000) * jitter\<rfloor> \<le> unat delay \<and>
           int (unat delay) \<le> max 1 \<lceil>real (min (unat (m_reconnectInterval c) * 2 ^ (unat attempt - 1)) 30000) * jitter\<rceil>"
proof -
  define n where "n = unat attempt - 1"
  define m where "m = min (unat (m_reconnectInterval c) * 2 ^ n) 30000"
  define d where "d = nat \<lfloor>max 1 (binary64 (real m * jitter))\<rfloor>"
  have "1 \<le> attempt" using assms(1) by (simp add: word_le_nat_alt)
  then have n: "unat (attempt - 1) = n"
    by (simp add: unat_sub n_def)
  have n32: "n < 32" using assms(1,2) by (simp add: n_def)
  have e: "unat (m_reconnectInterval c * 2 ^ n) = unat (m_reconnectInterval c) * 2 ^ n"
    using assms(3) by (intro exponentialDelay_exact [OF n32]) (simp add: n_def)
  have m: "unat (min (m_reconnectInterval c * 2 ^ n) 30000) = m"
    by (simp only: unat_min e m_def) simp
  have m30: "m \<le> 30000" by (simp add: m_def)
  note b = truncate_bounds [OF assms(4,5) m30]
  have "d \<le> 36000" unfolding d_def by (rule b(6))
  then have "d mod 2 ^ LENGTH(32) = d" by simp
  then have u: "unat (of_nat d :: u32) = d"
    by (simp only: unat_of_nat)
  have "calculateReconnectDelay jitter attempt c =
          (if 32 \<le> n then None else Some (of_nat (nat \<lfloor>max 1 (binary64 (real m * jitter))\<rfloor>)))"
    unfolding calculateReconnectDelay_def Let_def n push_bit_of_1 m ..
  then have c: "calculateReconnectDelay jitter attempt c = Some (of_nat d)"
    using n32 by (simp only: d_def not_le [symmetric] if_False)
  have b1: "1 \<le> d"
    and b2: "0.8 * real m - 1 < real d"
    and b3: "real d \<le> max 1 (1.2 * real m)"
    and b4: "nat \<lfloor>real m * jitter\<rfloor> \<le> d"
    and b5: "int d \<le> max 1 \<lceil>real m * jitter\<rceil>"
    unfolding d_def by (rule b)+
  have "calculateReconnectDelay jitter attempt c = Some (of_nat d) \<and>
        unat (of_nat d :: u32) = nat \<lfloor>max 1 (binary64 (real m * jitter))\<rfloor> \<and>
        1 \<le> unat (of_nat d :: u32) \<and>
        0.8 * real m - 1 < real (unat (of_nat d :: u32)) \<and>
        real (unat (of_nat d :: u32)) \<le> max 1 (1.2 * real m) \<and>
        nat \<lfloor>real m * jitter\<rfloor> \<le> unat (of_nat d :: u32) \<and>
        int (unat (of_nat d :: u32)) \<le> max 1 \<lceil>real m * jitter\<rceil>"
    unfolding u using c b1 b2 b3 b4 b5 d_def by blast
  then show ?thesis unfolding m_def n_def by (rule exI)
qed

text \<open>
  With a base of 10 and the jitter \<open>8106479329266892 / 2 ^ 53\<close>, the \<open>double\<close> next below
  0.9, the exact product is less than 9 and lies halfway between two \<open>double\<close>s; it is
  rounded to 9, and the delay is 9.
\<close>

theorem calculateReconnectDelay_bounds_witness:
  "calculateReconnectDelay (8106479329266892 / 9007199254740992) 1
     (example_session\<lparr>m_reconnectInterval := 10\<rparr>) = Some 9 \<and>
   real (10 :: nat) * (8106479329266892 / 9007199254740992) < 9 \<and>
   0.8 * real (min (10 * 2 ^ 0) 30000) - 1 < real 9 \<and>
   real 9 \<le> max 1 (1.2 * real (min (10 * 2 ^ 0) 30000))"
proof -
  let ?c = "example_session\<lparr>m_reconnectInterval := 10\<rparr>"
  let ?j = "8106479329266892 / 9007199254740992 :: real"
  have 1: "1 \<le> unat (1 :: u32)" by simp
  have 2: "unat (1 :: u32) \<le> 32" by simp
  have 3: "unat (m_reconnectInterval ?c) * 2 ^ (unat (1 :: u32) - 1) < 2 ^ 32"
    by simp
  have 4: "0.8 \<le> ?j" by simp
  have 5: "?j \<le> 1.2" by simp
  have "calculateReconnectDelay ?j 1 ?c = Some 9"
    by code_simp
  then show ?thesis
    using calculateReconnectDelay_bounds [OF 1 2 3 4 5] by simp
qed

section \<open>Weighted selection\<close>

lemma cumulative_simps:
  "cumulative configs 0 = 0"
  "cumulative [] i = 0"
  "cumulative (config # rest) (Suc i) = unat (weight config) + cumulative rest i"
  by (simp_all add: cumulative_def)

lemma cumulative_mono: "i \<le> j \<Longrightarrow> cumulative configs i \<le> cumulative configs j"
proof (induction configs arbitrary: i j)
  case Nil
  then show ?case by (simp add: cumulative_simps)
next
  case (Cons config rest)
  show ?case
  proof (cases i)
    case 0
    then show ?thesis by (simp add: cumulative_simps)
  next
    case (Suc i')
    then obtain j' where j: "j = Suc j'" and "i' \<le> j'"
      using Cons.prems by (cases j) auto
    then show ?thesis using Cons.IH [of i' j'] Suc by (simp add: cumulative_simps)
  qed
qed

lemma sint_of_nat_small:
  assumes "k < 2 ^ 31"
  shows "sint (of_nat k :: u32) = int k"
proof -
  have "int k < 2 ^ 31" using assms by simp
  then show ?thesis
    by (simp add: signed_of_nat signed_take_bit_int_eq_self)
qed

lemma of_nat_plus_weight: "(of_nat acc :: u32) + w = of_nat (acc + unat w)"
  by simp

lemma walk_finds:
  assumes "acc + cumulative configs (length configs) < 2 ^ 31"
    and "acc \<le> r" and "r < acc + cumulative configs (length configs)"
  shows "\<exists>i<length configs.
           selectWeighted_walk (of_nat r) (of_nat acc) configs = Some (configs ! i) \<and>
           acc + cumulative configs i \<le> r \<and> r < acc + cumulative configs (Suc i)"
  using assms
proof (induction configs arbitrary: acc)
  case Nil
  then show ?case by (simp add: cumulative_simps)
next
  case (Cons config rest)
  let ?acc' = "acc + unat (weight config)"
  have total: "?acc' + cumulative rest (length rest) < 2 ^ 31"
    using Cons.prems(1) by (simp add: cumulative_simps)
  have "cumulative rest 0 \<le> cumulative rest (length rest)" by (rule cumulative_mono) simp
  then have acc': "?acc' < 2 ^ 31" using total by linarith
  have r: "r < 2 ^ 31" using Cons.prems(1,3) by linarith
  have cmp: "((of_nat r :: u32) <s of_nat ?acc') = (r < ?acc')"
    by (simp only: word_sless_alt sint_of_nat_small [OF r] sint_of_nat_small [OF acc']
        of_nat_less_iff)
  have step: "selectWeighted_walk (of_nat r) (of_nat acc) (config # rest) =
      (if r < ?acc' then Some config else selectWeighted_walk (of_nat r) (of_nat ?acc') rest)"
    unfolding selectWeighted_walk.simps Let_def of_nat_plus_weight cmp ..
  show ?case
  proof (cases "r < ?acc'")
    case True
    then have "selectWeighted_walk (of_nat r) (of_nat acc) (config # rest) = Some ((config # rest) ! 0)"
      by (simp only: step if_True nth_Cons_0)
    moreover have "acc + cumulative (config # rest) 0 \<le> r"
      using Cons.prems(2) by (simp add: cumulative_simps)
    moreover have "r < acc + cumulative (config # rest) (Suc 0)"
      using True by (simp add: cumulative_simps)
    ultimately show ?thesis by (intro exI [of _ 0]) simp
  next
    case False
    then have "?acc' \<le> r" by simp
    moreover have "r < ?acc' + cumulative rest (length rest)"
      using Cons.prems(3) by (simp add: cumulative_simps)
    ultimately obtain i where i: "i < length rest"
      and w: "selectWeighted_walk (of_nat r) (of_nat ?acc') rest = Some (rest ! i)"
      and lo: "?acc' + cumulative rest i \<le> r" and hi: "r < ?acc' + cumulative rest (Suc i)"
      using Cons.IH [OF total] by blast
    have "selectWeighted_walk (of_nat r) (of_nat acc) (config # rest) = Some ((config # rest) ! Suc i)"
      using False w by (simp only: step if_False nth_Cons_Suc)
    moreover have "acc + cumulative (config # rest) (Suc i) \<le> r"
      using lo by (simp add: cumulative_simps)
    moreover have "r < acc + cumulative (config # rest) (Suc (Suc i))"
      using hi by (simp add: cumulative_simps)
    ultimately show ?thesis using i by (intro exI [of _ "Suc i"]) simp
  qed
qed

lemma range_unique:
  assumes "cumulative configs i \<le> r" and "r < cumulative configs (Suc i)"
    and "cumulative configs j \<le> r" and "r < cumulative configs (Suc j)"
  shows "j = i"
proof (rule ccontr)
  assume "j \<noteq> i"
  then consider "Suc i \<le> j" | "Suc j \<le> i" by linarith
  then show False
  proof cases
    case 1
    then have "cumulative configs (Suc i) \<le> cumulative configs j" by (rule cumulative_mono)
    then show False using assms by linarith
  next
    case 2
    then have "cumulative configs (Suc j) \<le> cumulative configs i" by (rule cumulative_mono)
    then show False using assms by linarith
  qed
qed

lemma word_of_nonneg_sint:
  assumes "0 \<le> sint (w :: u32)"
  shows "of_nat (nat (sint w)) = w"
  using assms by simp

lemma foldl_weights:
  "foldl (\<lambda>total config. total + weight config) (of_nat acc :: u32) configs =
     of_nat (acc + cumulative configs (length configs))"
proof (induction configs arbitrary: acc)
  case Nil
  then show ?case by (simp add: cumulative_simps)
next
  case (Cons config rest)
  have "foldl (\<lambda>total config. total + weight config) (of_nat acc :: u32) (config # rest) =
      foldl (\<lambda>total config. total + weight config) (of_nat acc + weight config) rest"
    by simp
  also have "\<dots> = foldl (\<lambda>total config. total + weight config) (of_nat (acc + unat (weight config))) rest"
    by (simp only: of_nat_plus_weight)
  also have "\<dots> = of_nat (acc + unat (weight config) + cumulative rest (length rest))"
    by (rule Cons.IH)
  finally show ?case by (simp add: cumulative_simps add.assoc)
qed

lemma totalWeights_cumulative:
  "totalWeights configs = of_nat (cumulative configs (length configs))"
  using foldl_weights [of 0 configs] by (simp add: totalWeights_def)

lemma cumulative_Suc:
  assumes "j < length configs"
  shows "cumulative configs (Suc j) = cumulative configs j + unat (weight (configs ! j))"
  using assms by (simp add: cumulative_def take_Suc_conv_app_nth)

lemma cumulative_positive:
  assumes "configs \<noteq> []" and "\<forall>config\<in>set configs. 1 \<le> unat (weight config)"
  shows "1 \<le> cumulative configs (length configs)"
proof -
  obtain config rest where configs: "configs = config # rest" using assms(1) by (cases configs) auto
  have "1 \<le> unat (weight config)" using assms(2) configs by simp
  then show ?thesis by (simp add: configs cumulative_simps)
qed

lemma range_card:
  assumes "j < length configs"
  shows "card {r. cumulative configs j \<le> r \<and> r < cumulative configs (Suc j)} =
           unat (weight (configs ! j))"
proof -
  have "{r. cumulative configs j \<le> r \<and> r < cumulative configs (Suc j)} =
      {cumulative configs j ..< cumulative configs (Suc j)}" by auto
  then show ?thesis by (simp add: cumulative_Suc [OF assms])
qed

lemma selectWeighted_walk_in_configs:
  "selectWeighted_walk randomWeight currentWeight configs = Some config \<Longrightarrow> config \<in> set configs"
  by (induction configs arbitrary: currentWeight) (auto simp: Let_def split: if_splits)

lemma selectWeighted_in_configs:
  assumes "m_configs lb \<noteq> []"
  shows "selectWeighted draw lb \<in> set (m_configs lb)"
  using assms
  by (auto simp: selectWeighted_def Let_def dest: selectWeighted_walk_in_configs split: option.splits)

text \<open>
  The claim C8 as it is written fails where the weights do not fit the \<open>int\<close> they are
  added up in. With the weights 4294967295 and 2 the first copy is \<open>-1\<close> and the total
  is 1, not 4294967297: the distribution is asked for a number between 0 and 0, and the
  only draw is 0, here from the distribution that always gives its lower bound. The draw
  lies in the range of the first descriptor, which starts at 0 and ends before
  4294967295, and \<open>selectWeighted\<close> returns the second.
\<close>

theorem getNextDatabase_weighted_counterexample:
  "cumulative (m_configs (weighted_balancer 4294967295 2)) 2 = 4294967297 \<and>
   totalWeights (m_configs (weighted_balancer 4294967295 2)) - 1 = 0 \<and>
   cumulative (m_configs (weighted_balancer 4294967295 2)) 0 \<le> nat (sint (0 :: u32)) \<and>
   nat (sint (0 :: u32)) < cumulative (m_configs (weighted_balancer 4294967295 2)) (Suc 0) \<and>
   getNextDatabase (\<lambda>a b. a) (weighted_balancer 4294967295 2) =
     (Inr (m_configs (weighted_balancer 4294967295 2) ! 1), weighted_balancer 4294967295 2) \<and>
   m_configs (weighted_balancer 4294967295 2) ! 1 \<noteq> m_configs (weighted_balancer 4294967295 2) ! 0"
  by (simp add: weighted_balancer_def totalWeights_def cumulative_def getNextDatabase_def
      selectWeighted_def word_sless_alt)

text \<open>
  C8, amended. With the strategy \<open>WEIGHTED\<close> and a non-empty list of descriptors whose
  weights are all at least 1 and add up to less than \<open>2 ^ 31\<close>, \<open>getNextDatabase\<close> asks
  the uniform distribution for an integer between 0 and the sum of the weights less 1,
  so that the draw \<open>r\<close> is uniform in the range from 0 up to and not including the sum;
  it returns the descriptor at the one index \<open>i\<close> whose range, from the sum of the
  weights before \<open>i\<close> up to and not including the sum of the weights through \<open>i\<close>,
  contains \<open>r\<close>; the descriptor is an element of the list, and the selector is left as it
  was. Of the equally probable draws, as many as the weight of a descriptor lie in its
  range.
\<close>

theorem getNextDatabase_weighted:
  assumes "m_strategy lb = WEIGHTED" and "m_configs lb \<noteq> []"
    and "\<forall>config\<in>set (m_configs lb). 1 \<le> unat (weight config)"
    and "cumulative (m_configs lb) (length (m_configs lb)) < 2 ^ 31"
    and "\<forall>a b. a \<le>s b \<longrightarrow> a \<le>s draw a b \<and> draw a b \<le>s b"
  shows "sint (totalWeights (m_configs lb)) = int (cumulative (m_configs lb) (length (m_configs lb))) \<and>
         0 \<le> sint (draw 0 (totalWeights (m_configs lb) - 1)) \<and>
         nat (sint (draw 0 (totalWeights (m_configs lb) - 1)))
           < cumulative (m_configs lb) (length (m_configs lb)) \<and>
         (\<exists>i<length (m_configs lb).
            getNextDatabase draw lb = (Inr (m_configs lb ! i), lb) \<and>
            m_configs lb ! i \<in> set (m_configs lb) \<and>
            cumulative (m_configs lb) i \<le> nat (sint (draw 0 (totalWeights (m_configs lb) - 1))) \<and>
            nat (sint (draw 0 (totalWeights (m_configs lb) - 1))) < cumulative (m_configs lb) (Suc i) \<and>
            (\<forall>j<length (m_configs lb).
               cumulative (m_configs lb) j \<le> nat (sint (draw 0 (totalWeights (m_configs lb) - 1))) \<and>
               nat (sint (draw 0 (totalWeights (m_configs lb) - 1))) < cumulative (m_configs lb) (Suc j)
               \<longrightarrow> j = i)) \<and>
         (\<forall>j<length (m_configs lb).
            card {r. cumulative (m_configs lb) j \<le> r \<and> r < cumulative (m_configs lb) (Suc j)} =
              unat (weight (m_configs lb ! j)))"
proof -
  define total where "total = cumulative (m_configs lb) (length (m_configs lb))"
  define d where "d = draw 0 (totalWeights (m_configs lb) - 1)"
  let ?r = "nat (sint d)"
  have total: "total < 2 ^ 31" using assms(4) by (simp add: total_def)
  have positive: "1 \<le> total"
    unfolding total_def by (rule cumulative_positive [OF assms(2,3)])
  have tw: "totalWeights (m_configs lb) = of_nat total"
    by (simp only: totalWeights_cumulative total_def)
  have s: "sint (totalWeights (m_configs lb)) = int total"
    unfolding tw by (rule sint_of_nat_small [OF total])
  have "(of_nat total :: u32) - 1 = of_nat (total - 1)"
    using positive by (simp add: of_nat_diff)
  then have hi: "totalWeights (m_configs lb) - 1 = of_nat (total - 1)"
    by (simp only: tw)
  have less: "total - 1 < 2 ^ 31" using total by simp
  have shi: "sint (totalWeights (m_configs lb) - 1) = int (total - 1)"
    unfolding hi by (rule sint_of_nat_small [OF less])
  have "(0 :: u32) \<le>s totalWeights (m_configs lb) - 1"
    by (simp only: word_sle_eq shi) simp
  then have "0 \<le>s d \<and> d \<le>s totalWeights (m_configs lb) - 1"
    unfolding d_def using assms(5) by blast
  then have d0: "0 \<le> sint d" and d1: "sint d \<le> int (total - 1)"
    by (simp_all add: word_sle_eq shi)
  have r: "?r < total" using d0 d1 positive by linarith
  have rw: "of_nat ?r = d" by (rule word_of_nonneg_sint [OF d0])
  obtain i where i: "i < length (m_configs lb)"
    and w: "selectWeighted_walk (of_nat ?r) (of_nat 0) (m_configs lb) = Some (m_configs lb ! i)"
    and lo: "0 + cumulative (m_configs lb) i \<le> ?r"
    and up: "?r < 0 + cumulative (m_configs lb) (Suc i)"
    using walk_finds [of 0 "m_configs lb" ?r] assms(4) r by (auto simp: total_def)
  have lo': "cumulative (m_configs lb) i \<le> ?r" using lo by simp
  have up': "?r < cumulative (m_configs lb) (Suc i)" using up by simp
  have "selectWeighted_walk d 0 (m_configs lb) = Some (m_configs lb ! i)"
    using w unfolding rw by simp
  then have "selectWeighted draw lb = m_configs lb ! i"
    by (simp add: selectWeighted_def d_def)
  then have g: "getNextDatabase draw lb = (Inr (m_configs lb ! i), lb)"
    using assms(1,2) by (simp add: getNextDatabase_def)
  have m: "m_configs lb ! i \<in> set (m_configs lb)" using i by (rule nth_mem)
  have u: "\<forall>j<length (m_configs lb).
      cumulative (m_configs lb) j \<le> ?r \<and> ?r < cumulative (m_configs lb) (Suc j) \<longrightarrow> j = i"
    using range_unique [OF lo' up'] by blast
  have c: "\<forall>j<length (m_configs lb).
      card {r. cumulative (m_configs lb) j \<le> r \<and> r < cumulative (m_configs lb) (Suc j)} =
        unat (weight (m_configs lb ! j))"
    using range_card by blast
  have e: "\<exists>i<length (m_configs lb).
      getNextDatabase draw lb = (Inr (m_configs lb ! i), lb) \<and>
      m_configs lb ! i \<in> set (m_configs lb) \<and>
      cumulative (m_configs lb) i \<le> ?r \<and> ?r < cumulative (m_configs lb) (Suc i) \<and>
      (\<forall>j<length (m_configs lb).
         cumulative (m_configs lb) j \<le> ?r \<and> ?r < cumulative (m_configs lb) (Suc j) \<longrightarrow> j = i)"
    using i g m lo' up' u by blast
  show ?thesis
    using s d0 r e c unfolding total_def d_def by blast
qed

theorem getNextDatabase_weighted_witness:
  "getNextDatabase (\<lambda>a b. b) (weighted_balancer 1 3) =
     (Inr (m_configs (weighted_balancer 1 3) ! 1), weighted_balancer 1 3) \<and>
   sint (totalWeights (m_configs (weighted_balancer 1 3))) = 4 \<and>
   cumulative (m_configs (weighted_balancer 1 3)) 1 = 1 \<and>
   cumulative (m_configs (weighted_balancer 1 3)) 2 = 4 \<and>
   card {r. cumulative (m_configs (weighted_balancer 1 3)) 1 \<le> r \<and>
            r < cumulative (m_configs (weighted_balancer 1 3)) 2} = 3"
proof -
  let ?lb = "weighted_balancer 1 3"
  let ?draw = "\<lambda>a b :: u32. b"
  have 1: "m_strategy ?lb = WEIGHTED" by (simp add: weighted_balancer_def)
  have 2: "m_configs ?lb \<noteq> []" by (simp add: weighted_balancer_def)
  have 3: "\<forall>config\<in>set (m_configs ?lb). 1 \<le> unat (weight config)"
    by (simp add: weighted_balancer_def)
  have 4: "cumulative (m_configs ?lb) (length (m_configs ?lb)) < 2 ^ 31"
    by (simp add: weighted_balancer_def cumulative_def)
  have 5: "\<forall>a b. a \<le>s b \<longrightarrow> a \<le>s ?draw a b \<and> ?draw a b \<le>s b"
    by simp
  have len: "length (m_configs ?lb) = 2" by (simp add: weighted_balancer_def)
  have c1: "cumulative (m_configs ?lb) 1 = 1" by (simp add: weighted_balancer_def cumulative_def)
  have c2: "cumulative (m_configs ?lb) 2 = 4" by (simp add: weighted_balancer_def cumulative_def)
  have w: "unat (weight (m_configs ?lb ! 1)) = 3" by (simp add: weighted_balancer_def)
  have d: "nat (sint (?draw 0 (totalWeights (m_configs ?lb) - 1))) = 3"
    by (simp add: weighted_balancer_def totalWeights_def)
  note t = getNextDatabase_weighted [OF 1 2 3 4 5]
  have s: "sint (totalWeights (m_configs ?lb)) = 4"
    using t c2 len by simp
  have card: "card {r. cumulative (m_configs ?lb) 1 \<le> r \<and> r < cumulative (m_configs ?lb) 2} = 3"
  proof -
    have "\<forall>j<length (m_configs ?lb).
        card {r. cumulative (m_configs ?lb) j \<le> r \<and> r < cumulative (m_configs ?lb) (Suc j)} =
          unat (weight (m_configs ?lb ! j))"
      using t by blast
    then have "card {r. cumulative (m_configs ?lb) 1 \<le> r \<and> r < cumulative (m_configs ?lb) (Suc 1)} =
        unat (weight (m_configs ?lb ! 1))"
      using len by simp
    then show ?thesis using w by (simp add: numeral_2_eq_2)
  qed
  obtain i where i: "i < length (m_configs ?lb)"
    and g: "getNextDatabase ?draw ?lb = (Inr (m_configs ?lb ! i), ?lb)"
    and up: "nat (sint (?draw 0 (totalWeights (m_configs ?lb) - 1))) < cumulative (m_configs ?lb) (Suc i)"
    using t by blast
  have "i \<noteq> 0"
  proof
    assume "i = 0"
    then have "3 < cumulative (m_configs ?lb) (Suc 0)" using up d by simp
    then show False by (simp add: weighted_balancer_def cumulative_def)
  qed
  moreover have "i < 2" using i by (simp add: weighted_balancer_def)
  ultimately have "i = 1" by simp
  then show ?thesis using g s c1 c2 card by simp
qed

section \<open>Execute with reconnect\<close>

lemma reconnect_loop_attempts:
  "reconnect_loop rs attempt c = Some (b, c') \<Longrightarrow> m_reconnectAttempts c' = m_reconnectAttempts c"
  by (induction rs arbitrary: attempt c) (auto simp: Let_def split: if_splits)

lemma reconnect_attempts:
  "reconnect a c = Some (r, c') \<Longrightarrow> m_reconnectAttempts c' = m_reconnectAttempts c"
  by (auto simp: reconnect_def Let_def split: if_splits option.splits dest: reconnect_loop_attempts)

lemma executeInternal_attempts:
  "executeInternal isQuery qa now c = (r, c') \<Longrightarrow> m_reconnectAttempts c' = m_reconnectAttempts c"
  by (auto simp: executeInternal_def updateLastActiveTime_def Let_def split: if_splits option.splits)

text \<open>What the try block can do.\<close>

lemma try_executeInternal_cases:
  obtains (returned) queryResult c2 where
      "try_executeInternal isQuery a c =
         (ExecuteCall (Inr queryResult), Leaves (Some (Inr queryResult)) [True], c2)"
  | (sql_error) errorMsg errorCode c2 where "\<not> isConnectionError errorCode"
      "try_executeInternal isQuery a c =
         (ExecuteCall (Inl (SQLExecutionError errorMsg errorCode)),
          Leaves (Some (Inl OtherErrors)) [False], c2)"
  | (transport_error) errorMsg errorCode c2 where "isConnectionError errorCode"
      "try_executeInternal isQuery a c =
         (ExecuteCall (Inl (SQLExecutionError errorMsg errorCode)), NextAttempt errorMsg, c2)"
proof (cases "executeInternal isQuery (executing a) (clock_reading a) c")
  case (Pair r c2)
  show thesis
  proof (cases r)
    case (Inr queryResult)
    with Pair show thesis by (intro returned [of queryResult c2]) (simp add: try_executeInternal_def)
  next
    case (Inl e)
    with Pair obtain errorMsg errorCode where e: "e = SQLExecutionError errorMsg errorCode"
      by (auto simp: executeInternal_def Let_def split: if_splits option.splits)
    show thesis
    proof (cases "isConnectionError errorCode")
      case True
      with Pair Inl e show thesis
        by (intro transport_error [where errorCode = errorCode and errorMsg = errorMsg and ?c2.0 = c2]) (simp_all add: try_executeInternal_def)
    next
      case False
      with Pair Inl e show thesis
        by (intro sql_error [where errorCode = errorCode and errorMsg = errorMsg and ?c2.0 = c2]) (simp_all add: try_executeInternal_def)
    qed
  qed
qed

lemma try_executeInternal_attempts:
  "try_executeInternal isQuery a c = (executed, how, c') \<Longrightarrow>
     m_reconnectAttempts c' = m_reconnectAttempts c"
  by (auto simp: try_executeInternal_def split: prod.splits sum.splits exn.splits if_splits
      dest: executeInternal_attempts)

text \<open>What one iteration of the loop can do.\<close>

lemma iteration_cases:
  obtains (stuck) "attempt > 0"
      "executeQueryWithReconnect_iteration isQuery a attempt c = ([], Leaves None [], c)"
  | (init_failed) c1 where "attempt > 0"
      "executeQueryWithReconnect_iteration isQuery a attempt c =
         ([ReconnectCall (Inl InitFailed)], Leaves (Some (Inl InitFailed)) [], c1)"
  | (reconnect_failed) c1 where "attempt > 0"
      "m_reconnectAttempts c1 = m_reconnectAttempts c"
      "executeQueryWithReconnect_iteration isQuery a attempt c =
         ([ReconnectCall (Inr False)], NextAttempt ''Failed to reconnect'', c1)"
  | (returned) queryResult c2 where
      "executeQueryWithReconnect_iteration isQuery a attempt c =
         ((if attempt > 0 then [ReconnectCall (Inr True)] else []) @ [ExecuteCall (Inr queryResult)],
          Leaves (Some (Inr queryResult)) [True], c2)"
  | (sql_error) errorMsg errorCode c2 where "\<not> isConnectionError errorCode"
      "executeQueryWithReconnect_iteration isQuery a attempt c =
         ((if attempt > 0 then [ReconnectCall (Inr True)] else []) @
            [ExecuteCall (Inl (SQLExecutionError errorMsg errorCode))],
          Leaves (Some (Inl OtherErrors)) [False], c2)"
  | (transport_error) errorMsg errorCode c2 where "isConnectionError errorCode"
      "m_reconnectAttempts c2 = m_reconnectAttempts c"
      "executeQueryWithReconnect_iteration isQuery a attempt c =
         ((if attempt > 0 then [ReconnectCall (Inr True)] else []) @
            [ExecuteCall (Inl (SQLExecutionError errorMsg errorCode))],
          NextAttempt errorMsg, c2)"
proof (cases "attempt > 0")
  case False
  show thesis
  proof (cases isQuery a c rule: try_executeInternal_cases)
    case (returned queryResult c2)
    with False show thesis
      by (intro that(4) [where queryResult = queryResult and ?c2.0 = c2]) (simp add: executeQueryWithReconnect_iteration_def)
  next
    case (sql_error errorMsg errorCode c2)
    with False show thesis
      by (intro that(5) [where errorCode = errorCode and errorMsg = errorMsg and ?c2.0 = c2])
         (simp_all add: executeQueryWithReconnect_iteration_def)
  next
    case (transport_error errorMsg errorCode c2)
    with False show thesis
      by (intro that(6) [where errorCode = errorCode and errorMsg = errorMsg and ?c2.0 = c2])
         (auto simp: executeQueryWithReconnect_iteration_def dest: try_executeInternal_attempts)
  qed
next
  case True
  show thesis
  proof (cases "reconnect (reconnecting a) c")
    case None
    with True show thesis by (intro stuck) (simp_all add: executeQueryWithReconnect_iteration_def)
  next
    case (Some rc)
    obtain r c1 where rc: "rc = (r, c1)" by (cases rc)
    have c1: "m_reconnectAttempts c1 = m_reconnectAttempts c"
      using Some rc by (auto dest: reconnect_attempts)
    show thesis
    proof (cases r)
      case (Inl e)
      then have "e = InitFailed"
        using Some rc by (auto simp: reconnect_def Let_def split: if_splits option.splits)
      with Inl True Some rc show thesis
        by (intro init_failed [of c1]) (simp_all add: executeQueryWithReconnect_iteration_def)
    next
      case (Inr b)
      show thesis
      proof (cases b)
        case False
        with True Some rc Inr c1 show thesis
          by (intro reconnect_failed [of c1]) (simp_all add: executeQueryWithReconnect_iteration_def)
      next
        case b: True
        show thesis
        proof (cases isQuery a c1 rule: try_executeInternal_cases)
          case (returned queryResult c2)
          with True Some rc Inr b show thesis
            by (intro that(4) [where queryResult = queryResult and ?c2.0 = c2])
               (simp add: executeQueryWithReconnect_iteration_def)
        next
          case (sql_error errorMsg errorCode c2)
          with True Some rc Inr b show thesis
            by (intro that(5) [where errorCode = errorCode and errorMsg = errorMsg and ?c2.0 = c2])
               (simp_all add: executeQueryWithReconnect_iteration_def)
        next
          case (transport_error errorMsg errorCode c2)
          with True Some rc Inr b c1 show thesis
            by (intro that(6) [where errorCode = errorCode and errorMsg = errorMsg and ?c2.0 = c2])
               (auto simp: executeQueryWithReconnect_iteration_def dest: try_executeInternal_attempts)
        qed
      qed
    qed
  qed
qed

lemma loop_leaves:
  assumes "attempt \<le> m_reconnectAttempts c"
    and "executeQueryWithReconnect_iteration isQuery a attempt c = (calls, Leaves result told, c')"
  shows "executeQueryWithReconnect_loop isQuery (a # as) attempt errorMessage c =
           \<lparr>outcome = result, session = c', trace = calls, recorded = told\<rparr>"
  using assms by simp

lemma loop_next:
  assumes "attempt \<le> m_reconnectAttempts c"
    and "executeQueryWithReconnect_iteration isQuery a attempt c = (calls, NextAttempt errorMessage', c')"
  shows "executeQueryWithReconnect_loop isQuery (a # as) attempt errorMessage c =
           preceded_by calls (executeQueryWithReconnect_loop isQuery as (attempt + 1) errorMessage' c')"
  using assms by simp

lemma loop_exhausted:
  assumes "\<not> attempt \<le> m_reconnectAttempts c"
  shows "executeQueryWithReconnect_loop isQuery as attempt errorMessage c =
           \<lparr>outcome = Some (Inl (AttemptsExhausted errorMessage)), session = c, trace = [],
            recorded = [False]\<rparr>"
  using assms by (cases as) simp_all

lemma loop_running:
  assumes "attempt \<le> m_reconnectAttempts c"
  shows "executeQueryWithReconnect_loop isQuery [] attempt errorMessage c =
           \<lparr>outcome = None, session = c, trace = [], recorded = []\<rparr>"
  using assms by simp

declare executeQueryWithReconnect_loop.simps [simp del]

lemma preceded_by_simps [simp]:
  "outcome (preceded_by calls r) = outcome r"
  "recorded (preceded_by calls r) = recorded r"
  "session (preceded_by calls r) = session r"
  "trace (preceded_by calls r) = calls @ trace r"
  by (simp_all add: preceded_by_def)

lemma next_attempt:
  assumes "attempt \<le> M" and "unat (M :: u32) + 1 < 2 ^ 32"
  shows "unat (attempt + 1) = unat attempt + 1" and "attempt + 1 > 0"
proof -
  have "unat attempt \<le> unat M" using assms(1) by (simp add: word_le_nat_alt)
  then have "unat attempt + unat (1 :: u32) < 2 ^ LENGTH(32)" using assms(2) by simp
  then have "unat (attempt + 1) = unat attempt + unat (1 :: u32)" by (simp only: unat_add_lem)
  then show u: "unat (attempt + 1) = unat attempt + 1" by simp
  then have "unat (attempt + 1) \<noteq> 0" by simp
  then show "attempt + 1 > 0" by (simp add: word_greater_zero_iff unat_eq_zero)
qed

lemma loop_calls_bound:
  assumes "unat M + 1 < 2 ^ 32" and "m_reconnectAttempts c = M"
  shows "executeInternal_calls (executeQueryWithReconnect_loop isQuery as attempt errorMessage c)
           \<le> unat M + 1 - unat attempt"
  using assms(2)
proof (induction as arbitrary: attempt errorMessage c)
  case Nil
  then show ?case
    by (cases "attempt \<le> M") (simp_all add: loop_running loop_exhausted executeInternal_calls_def)
next
  case (Cons a as)
  show ?case
  proof (cases "attempt \<le> M")
    case False
    then show ?thesis using Cons.prems by (simp add: loop_exhausted executeInternal_calls_def)
  next
    case True
    then have le: "attempt \<le> m_reconnectAttempts c" using Cons.prems by simp
    have u: "unat attempt \<le> unat M" using True by (simp add: word_le_nat_alt)
    note n = next_attempt(1) [OF True assms(1)]
    show ?thesis
    proof (cases isQuery a attempt c rule: iteration_cases)
      case stuck
      then show ?thesis by (simp add: loop_leaves [OF le] executeInternal_calls_def)
    next
      case (init_failed c1)
      then show ?thesis by (simp add: loop_leaves [OF le] executeInternal_calls_def)
    next
      case (reconnect_failed c1)
      then have "m_reconnectAttempts c1 = M" using Cons.prems by simp
      from Cons.IH [OF this, of "attempt + 1" "''Failed to reconnect''"]
      have "executeInternal_calls
              (executeQueryWithReconnect_loop isQuery as (attempt + 1) ''Failed to reconnect'' c1)
            \<le> unat M + 1 - (unat attempt + 1)" by (simp only: n)
      moreover have "executeInternal_calls
              (executeQueryWithReconnect_loop isQuery (a # as) attempt errorMessage c) =
            executeInternal_calls
              (executeQueryWithReconnect_loop isQuery as (attempt + 1) ''Failed to reconnect'' c1)"
        by (simp add: loop_next [OF le reconnect_failed(3)] executeInternal_calls_def)
      ultimately show ?thesis by linarith
    next
      case (returned queryResult c2)
      then show ?thesis using u by (simp add: loop_leaves [OF le] executeInternal_calls_def)
    next
      case (sql_error errorMsg errorCode c2)
      then show ?thesis using u by (simp add: loop_leaves [OF le] executeInternal_calls_def)
    next
      case (transport_error errorMsg errorCode c2)
      then have "m_reconnectAttempts c2 = M" using Cons.prems by simp
      from Cons.IH [OF this, of "attempt + 1" errorMsg]
      have "executeInternal_calls
              (executeQueryWithReconnect_loop isQuery as (attempt + 1) errorMsg c2)
            \<le> unat M + 1 - (unat attempt + 1)" by (simp only: n)
      moreover have "executeInternal_calls
              (executeQueryWithReconnect_loop isQuery (a # as) attempt errorMessage c) =
            1 + executeInternal_calls
              (executeQueryWithReconnect_loop isQuery as (attempt + 1) errorMsg c2)"
        by (simp add: loop_next [OF le transport_error(3)] executeInternal_calls_def)
      ultimately show ?thesis using u by linarith
    qed
  qed
qed

lemma loop_begins_with_reconnect:
  assumes "attempt > 0"
  shows "trace (executeQueryWithReconnect_loop isQuery as attempt errorMessage c) = [] \<or>
         (\<exists>b rest. trace (executeQueryWithReconnect_loop isQuery as attempt errorMessage c) =
            ReconnectCall b # rest)"
proof (cases "attempt \<le> m_reconnectAttempts c")
  case False
  then show ?thesis by (simp add: loop_exhausted)
next
  case le: True
  show ?thesis
  proof (cases as)
    case Nil
    then show ?thesis by (simp add: loop_running [OF le])
  next
    case (Cons a as')
    show ?thesis
      by (cases isQuery a attempt c rule: iteration_cases)
         (simp_all add: Cons loop_leaves [OF le] loop_next [OF le] assms)
  qed
qed

lemma loop_sql_error_is_last:
  assumes "trace (executeQueryWithReconnect_loop isQuery as attempt errorMessage c) =
             pre @ ExecuteCall (Inl (SQLExecutionError em code)) # post"
    and "\<not> isConnectionError code"
  shows "post = [] \<and>
         outcome (executeQueryWithReconnect_loop isQuery as attempt errorMessage c) =
           Some (Inl OtherErrors) \<and>
         recorded (executeQueryWithReconnect_loop isQuery as attempt errorMessage c) = [False]"
  using assms(1)
proof (induction as arbitrary: attempt errorMessage c pre)
  case Nil
  then show ?case
    by (cases "attempt \<le> m_reconnectAttempts c") (simp_all add: loop_running loop_exhausted)
next
  case (Cons a as)
  show ?case
  proof (cases "attempt \<le> m_reconnectAttempts c")
    case False
    then show ?thesis using Cons.prems by (simp add: loop_exhausted)
  next
    case le: True
    show ?thesis
    proof (cases isQuery a attempt c rule: iteration_cases)
      case stuck
      then show ?thesis using Cons.prems by (simp add: loop_leaves [OF le])
    next
      case (init_failed c1)
      then show ?thesis using Cons.prems by (simp add: loop_leaves [OF le] Cons_eq_append_conv)
    next
      case (reconnect_failed c1)
      then obtain pre' where
        "trace (executeQueryWithReconnect_loop isQuery as (attempt + 1) ''Failed to reconnect'' c1) =
           pre' @ ExecuteCall (Inl (SQLExecutionError em code)) # post"
        using Cons.prems by (auto simp: loop_next [OF le] Cons_eq_append_conv)
      from Cons.IH [OF this] reconnect_failed show ?thesis by (simp add: loop_next [OF le])
    next
      case (returned queryResult c2)
      then show ?thesis using Cons.prems
        by (auto simp: loop_leaves [OF le] Cons_eq_append_conv split: if_splits)
    next
      case (sql_error errorMsg errorCode c2)
      then show ?thesis using Cons.prems
        by (auto simp: loop_leaves [OF le] Cons_eq_append_conv split: if_splits)
    next
      case (transport_error errorMsg errorCode c2)
      then obtain pre' where
        "trace (executeQueryWithReconnect_loop isQuery as (attempt + 1) errorMsg c2) =
           pre' @ ExecuteCall (Inl (SQLExecutionError em code)) # post"
        using Cons.prems assms(2)
        by (auto simp: loop_next [OF le] Cons_eq_append_conv split: if_splits)
      from Cons.IH [OF this] transport_error show ?thesis by (simp add: loop_next [OF le])
    qed
  qed
qed

lemma loop_reconnects_after_execute:
  assumes "unat M + 1 < 2 ^ 32" and "m_reconnectAttempts c = M"
    and "trace (executeQueryWithReconnect_loop isQuery as attempt errorMessage c) =
           pre @ ExecuteCall x # following # post"
  shows "\<exists>b. following = ReconnectCall b"
  using assms(2,3)
proof (induction as arbitrary: attempt errorMessage c pre)
  case Nil
  then show ?case
    by (cases "attempt \<le> m_reconnectAttempts c") (simp_all add: loop_running loop_exhausted)
next
  case (Cons a as)
  show ?case
  proof (cases "attempt \<le> m_reconnectAttempts c")
    case False
    then show ?thesis using Cons.prems by (simp add: loop_exhausted)
  next
    case le: True
    then have leM: "attempt \<le> M" using Cons.prems by simp
    note pos = next_attempt(2) [OF leM assms(1)]
    show ?thesis
    proof (cases isQuery a attempt c rule: iteration_cases)
      case stuck
      then show ?thesis using Cons.prems by (simp add: loop_leaves [OF le])
    next
      case (init_failed c1)
      then show ?thesis using Cons.prems by (simp add: loop_leaves [OF le] Cons_eq_append_conv)
    next
      case (reconnect_failed c1)
      then obtain pre' where
        "trace (executeQueryWithReconnect_loop isQuery as (attempt + 1) ''Failed to reconnect'' c1) =
           pre' @ ExecuteCall x # following # post"
        using Cons.prems by (auto simp: loop_next [OF le] Cons_eq_append_conv)
      moreover have "m_reconnectAttempts c1 = M" using reconnect_failed Cons.prems by simp
      ultimately show ?thesis by (rule Cons.IH [rotated])
    next
      case (returned queryResult c2)
      then show ?thesis using Cons.prems
        by (auto simp: loop_leaves [OF le] Cons_eq_append_conv split: if_splits)
    next
      case (sql_error errorMsg errorCode c2)
      then show ?thesis using Cons.prems
        by (auto simp: loop_leaves [OF le] Cons_eq_append_conv split: if_splits)
    next
      case (transport_error errorMsg errorCode c2)
      let ?rest = "trace (executeQueryWithReconnect_loop isQuery as (attempt + 1) errorMsg c2)"
      have c2: "m_reconnectAttempts c2 = M" using transport_error Cons.prems by simp
      from transport_error Cons.prems
      consider (here) "?rest = following # post"
        | (later) pre' where "?rest = pre' @ ExecuteCall x # following # post"
        by (auto simp: loop_next [OF le] Cons_eq_append_conv split: if_splits)
      then show ?thesis
      proof cases
        case here
        then show ?thesis
          using loop_begins_with_reconnect [OF pos, of isQuery as errorMsg c2] by auto
      next
        case later
        from c2 later show ?thesis by (rule Cons.IH)
      qed
    qed
  qed
qed

lemma loop_exhausted_message:
  assumes "outcome (executeQueryWithReconnect_loop isQuery as attempt errorMessage c) =
             Some (Inl (AttemptsExhausted em))"
  shows "recorded (executeQueryWithReconnect_loop isQuery as attempt errorMessage c) = [False] \<and>
         (trace (executeQueryWithReconnect_loop isQuery as attempt errorMessage c) = [] \<and>
            em = errorMessage \<or>
          (\<exists>pre code. trace (executeQueryWithReconnect_loop isQuery as attempt errorMessage c) =
             pre @ [ExecuteCall (Inl (SQLExecutionError em code))] \<and> isConnectionError code) \<or>
          (\<exists>pre. trace (executeQueryWithReconnect_loop isQuery as attempt errorMessage c) =
             pre @ [ReconnectCall (Inr False)] \<and> em = ''Failed to reconnect''))"
  using assms
proof (induction as arbitrary: attempt errorMessage c)
  case Nil
  then show ?case
    by (cases "attempt \<le> m_reconnectAttempts c") (simp_all add: loop_running loop_exhausted)
next
  case (Cons a as)
  show ?case
  proof (cases "attempt \<le> m_reconnectAttempts c")
    case False
    then show ?thesis using Cons.prems by (simp add: loop_exhausted)
  next
    case le: True
    show ?thesis
    proof (cases isQuery a attempt c rule: iteration_cases)
      case stuck
      then show ?thesis using Cons.prems by (simp add: loop_leaves [OF le])
    next
      case (init_failed c1)
      then show ?thesis using Cons.prems by (simp add: loop_leaves [OF le])
    next
      case (reconnect_failed c1)
      let ?r = "executeQueryWithReconnect_loop isQuery as (attempt + 1) ''Failed to reconnect'' c1"
      have eq: "executeQueryWithReconnect_loop isQuery (a # as) attempt errorMessage c =
          preceded_by [ReconnectCall (Inr False)] ?r"
        by (rule loop_next [OF le reconnect_failed(3)])
      then have "outcome ?r = Some (Inl (AttemptsExhausted em))" using Cons.prems by simp
      from Cons.IH [OF this] show ?thesis
        unfolding eq preceded_by_simps
        by (elim conjE disjE exE) (simp, (rule conjI, assumption, fastforce)+)
    next
      case (returned queryResult c2)
      then show ?thesis using Cons.prems by (simp add: loop_leaves [OF le])
    next
      case (sql_error errorMsg errorCode c2)
      then show ?thesis using Cons.prems by (simp add: loop_leaves [OF le])
    next
      case (transport_error errorMsg errorCode c2)
      let ?r = "executeQueryWithReconnect_loop isQuery as (attempt + 1) errorMsg c2"
      let ?calls = "(if attempt > 0 then [ReconnectCall (Inr True)] else []) @
            [ExecuteCall (Inl (SQLExecutionError errorMsg errorCode))]"
      have eq: "executeQueryWithReconnect_loop isQuery (a # as) attempt errorMessage c =
          preceded_by ?calls ?r"
        by (rule loop_next [OF le transport_error(3)])
      then have "outcome ?r = Some (Inl (AttemptsExhausted em))" using Cons.prems by simp
      from Cons.IH [OF this] transport_error(1) show ?thesis
        unfolding eq preceded_by_simps
        by (elim conjE disjE exE) (fastforce+)
    qed
  qed
qed

lemma reconnect_loop_returns:
  assumes "unat M + 1 < 2 ^ 32" and "m_reconnectAttempts c = M"
    and "unat M + 1 - unat attempt \<le> length rs"
  shows "reconnect_loop rs attempt c \<noteq> None"
  using assms(2,3)
proof (induction rs arbitrary: attempt c)
  case Nil
  then have "unat M < unat attempt" by simp
  then have "\<not> attempt \<le> M" by (simp add: word_le_nat_alt)
  then show ?case using Nil.prems(1) by simp
next
  case (Cons r rs)
  show ?case
  proof (cases "attempt \<le> M")
    case False
    then show ?thesis using Cons.prems(1) by simp
  next
    case True
    note n = next_attempt(1) [OF True assms(1)]
    have "unat M + 1 - unat (attempt + 1) \<le> length rs"
      using Cons.prems(2) by (simp add: n)
    from Cons.IH [OF _ this, of "c\<lparr>m_totalReconnectAttempts := m_totalReconnectAttempts c + 1\<rparr>"]
    show ?thesis using True Cons.prems(1) by (auto simp: Let_def)
  qed
qed

lemma reconnect_returns:
  assumes "unat (m_reconnectAttempts c) + 1 < 2 ^ 32"
    and "unat (m_reconnectAttempts c) \<le> length (connects a)"
  shows "reconnect a c \<noteq> None"
proof -
  have "reconnect_loop (connects a) 1 (c\<lparr>m_mysql := True\<rparr>) \<noteq> None"
    using assms by (intro reconnect_loop_returns [of "m_reconnectAttempts c"]) simp_all
  then show ?thesis by (auto simp: reconnect_def Let_def split: option.splits)
qed

lemma loop_returns:
  assumes "unat M + 1 < 2 ^ 32" and "m_reconnectAttempts c = M"
    and "unat M + 1 - unat attempt \<le> length as"
    and "\<forall>a\<in>set as. unat M \<le> length (connects (reconnecting a))"
  shows "outcome (executeQueryWithReconnect_loop isQuery as attempt errorMessage c) \<noteq> None"
  using assms(2,3,4)
proof (induction as arbitrary: attempt errorMessage c)
  case Nil
  then have "unat M < unat attempt" by simp
  then have "\<not> attempt \<le> M" by (simp add: word_le_nat_alt)
  then show ?case using Nil.prems(1) by (simp add: loop_exhausted)
next
  case (Cons a as)
  show ?case
  proof (cases "attempt \<le> m_reconnectAttempts c")
    case False
    then show ?thesis by (simp add: loop_exhausted)
  next
    case le: True
    then have leM: "attempt \<le> M" using Cons.prems(1) by simp
    note n = next_attempt(1) [OF leM assms(1)]
    have len: "unat M + 1 - unat (attempt + 1) \<le> length as"
      using Cons.prems(2) by (simp add: n)
    have all: "\<forall>a\<in>set as. unat M \<le> length (connects (reconnecting a))"
      using Cons.prems(3) by simp
    have "reconnect (reconnecting a) c \<noteq> None"
      using Cons.prems(1,3) assms(1) by (intro reconnect_returns) simp_all
    then have not_stuck: "executeQueryWithReconnect_iteration isQuery a attempt c \<noteq> ([], Leaves None [], c)"
      by (auto simp: executeQueryWithReconnect_iteration_def try_executeInternal_def
          split: option.splits prod.splits sum.splits bool.splits exn.splits if_splits)
    show ?thesis
    proof (cases isQuery a attempt c rule: iteration_cases)
      case stuck
      then show ?thesis using not_stuck by simp
    next
      case (init_failed c1)
      then show ?thesis by (simp add: loop_leaves [OF le])
    next
      case (reconnect_failed c1)
      then have "m_reconnectAttempts c1 = M" using Cons.prems(1) by simp
      from Cons.IH [OF this len all] reconnect_failed show ?thesis by (simp add: loop_next [OF le])
    next
      case (returned queryResult c2)
      then show ?thesis by (simp add: loop_leaves [OF le])
    next
      case (sql_error errorMsg errorCode c2)
      then show ?thesis by (simp add: loop_leaves [OF le])
    next
      case (transport_error errorMsg errorCode c2)
      then have "m_reconnectAttempts c2 = M" using Cons.prems(1) by simp
      from Cons.IH [OF this len all] transport_error show ?thesis by (simp add: loop_next [OF le])
    qed
  qed
qed

lemma first_attempt_leaves_trace:
  assumes "outcome (executeQueryWithReconnect isQuery answers c) \<noteq> None"
  shows "trace (executeQueryWithReconnect isQuery answers c) \<noteq> []"
proof (cases answers)
  case Nil
  then show ?thesis using assms by (simp add: executeQueryWithReconnect_def loop_running)
next
  case (Cons a as)
  have le: "0 \<le> m_reconnectAttempts c" by simp
  show ?thesis
    by (cases isQuery a "0 :: u32" c rule: iteration_cases)
       (simp_all add: Cons executeQueryWithReconnect_def loop_leaves [OF le] loop_next [OF le])
qed

lemma server_gone_iteration:
  assumes "m_reconnectAttempts c = - 1"
  shows "\<exists>calls em c'. executeQueryWithReconnect_iteration isQuery server_gone attempt c =
            (calls, NextAttempt em, c') \<and>
          length (filter is_execute calls) = 1 \<and> m_reconnectAttempts c' = - 1"
  using assms
  by (cases "m_mysql c")
     (simp_all add: executeQueryWithReconnect_iteration_def try_executeInternal_def
        executeInternal_def reconnect_def server_gone_def isConnectionError_def
        updateLastActiveTime_def)

lemma server_gone_loop:
  assumes "m_reconnectAttempts c = - 1"
  shows "executeInternal_calls
           (executeQueryWithReconnect_loop isQuery (replicate n server_gone) attempt errorMessage c) = n"
  using assms
proof (induction n arbitrary: attempt errorMessage c)
  case 0
  then show ?case by (simp add: loop_running executeInternal_calls_def)
next
  case (Suc n)
  have le: "attempt \<le> m_reconnectAttempts c" using Suc.prems by simp
  obtain calls em c' where
    it: "executeQueryWithReconnect_iteration isQuery server_gone attempt c = (calls, NextAttempt em, c')"
    and one: "length (filter is_execute calls) = 1" and c': "m_reconnectAttempts c' = - 1"
    using server_gone_iteration [OF Suc.prems] by blast
  have "executeInternal_calls
          (executeQueryWithReconnect_loop isQuery (replicate n server_gone) (attempt + 1) em c') = n"
    by (rule Suc.IH [OF c'])
  then show ?case
    using one by (simp add: loop_next [OF le it] executeInternal_calls_def)
qed

lemma reconnect_calls_simps [simp]:
  "reconnect_calls [] = 0"
  "reconnect_calls (ReconnectCall b # calls) = Suc (reconnect_calls calls)"
  "reconnect_calls (ExecuteCall x # calls) = reconnect_calls calls"
  by (simp_all add: reconnect_calls_def)

lemma loop_silent:
  assumes "attempt > 0" and "attempt \<le> m_reconnectAttempts c"
    and "trace (executeQueryWithReconnect_loop isQuery as attempt errorMessage c) = []"
  shows "outcome (executeQueryWithReconnect_loop isQuery as attempt errorMessage c) = None"
proof (cases as)
  case Nil
  then show ?thesis by (simp add: loop_running [OF assms(2)])
next
  case (Cons a as')
  show ?thesis
    using assms(3) unfolding Cons
    by (cases isQuery a attempt c rule: iteration_cases)
       (simp_all add: loop_leaves [OF assms(2)] loop_next [OF assms(2)] assms(1))
qed

lemma loop_falls_through:
  assumes "unat M + 1 < 2 ^ 32" and "m_reconnectAttempts c = M" and "attempt > 0"
    and "trace (executeQueryWithReconnect_loop isQuery as attempt errorMessage c) =
           pre @ ExecuteCall (Inl (SQLExecutionError em code)) # post"
    and "isConnectionError code"
    and "unat attempt + reconnect_calls pre \<le> unat M"
  shows "(\<exists>b post'. post = ReconnectCall b # post') \<or>
         post = [] \<and> outcome (executeQueryWithReconnect_loop isQuery as attempt errorMessage c) = None"
  using assms(2,3,4,6)
proof (induction as arbitrary: attempt errorMessage c pre)
  case Nil
  then show ?case
    by (cases "attempt \<le> m_reconnectAttempts c") (simp_all add: loop_running loop_exhausted)
next
  case (Cons a as)
  show ?case
  proof (cases "attempt \<le> m_reconnectAttempts c")
    case False
    then show ?thesis using Cons.prems by (simp add: loop_exhausted)
  next
    case le: True
    then have leM: "attempt \<le> M" using Cons.prems by simp
    note n = next_attempt(1) [OF leM assms(1)]
    note pos = next_attempt(2) [OF leM assms(1)]
    have att: "attempt > 0" by (rule Cons.prems(2))
    show ?thesis
    proof (cases isQuery a attempt c rule: iteration_cases)
      case stuck
      then show ?thesis using Cons.prems by (simp add: loop_leaves [OF le])
    next
      case (init_failed c1)
      then show ?thesis using Cons.prems by (simp add: loop_leaves [OF le] Cons_eq_append_conv)
    next
      case (reconnect_failed c1)
      let ?r = "executeQueryWithReconnect_loop isQuery as (attempt + 1) ''Failed to reconnect'' c1"
      have eq: "executeQueryWithReconnect_loop isQuery (a # as) attempt errorMessage c =
          preceded_by [ReconnectCall (Inr False)] ?r"
        by (rule loop_next [OF le reconnect_failed(3)])
      obtain pre' where pre: "pre = ReconnectCall (Inr False) # pre'"
        and t: "trace ?r = pre' @ ExecuteCall (Inl (SQLExecutionError em code)) # post"
        using Cons.prems(3) unfolding eq by (auto simp: Cons_eq_append_conv)
      have c1: "m_reconnectAttempts c1 = M" using reconnect_failed Cons.prems by simp
      have b: "unat (attempt + 1) + reconnect_calls pre' \<le> unat M"
        using Cons.prems(4) by (simp add: n pre)
      from Cons.IH [OF c1 pos t b] show ?thesis by (simp add: eq)
    next
      case (returned queryResult c2)
      then show ?thesis using Cons.prems att
        by (auto simp: loop_leaves [OF le] Cons_eq_append_conv)
    next
      case (sql_error errorMsg errorCode c2)
      then show ?thesis using Cons.prems att assms(5)
        by (auto simp: loop_leaves [OF le] Cons_eq_append_conv)
    next
      case (transport_error errorMsg errorCode c2)
      let ?r = "executeQueryWithReconnect_loop isQuery as (attempt + 1) errorMsg c2"
      have eq: "executeQueryWithReconnect_loop isQuery (a # as) attempt errorMessage c =
          preceded_by [ReconnectCall (Inr True), ExecuteCall (Inl (SQLExecutionError errorMsg errorCode))] ?r"
        using loop_next [OF le transport_error(3)] att by simp
      have c2: "m_reconnectAttempts c2 = M" using transport_error Cons.prems by simp
      from Cons.prems(3)
      consider (here) "pre = [ReconnectCall (Inr True)]" "post = trace ?r"
        | (later) pre' where
            "pre = ReconnectCall (Inr True) # ExecuteCall (Inl (SQLExecutionError errorMsg errorCode)) # pre'"
            "trace ?r = pre' @ ExecuteCall (Inl (SQLExecutionError em code)) # post"
        unfolding eq by (auto simp: Cons_eq_append_conv)
      then show ?thesis
      proof cases
        case here
        have "unat attempt + 1 \<le> unat M" using Cons.prems(4) here by simp
        then have "unat (attempt + 1) \<le> unat M" by (simp only: n)
        then have le': "attempt + 1 \<le> m_reconnectAttempts c2" by (simp add: c2 word_le_nat_alt)
        show ?thesis
          using loop_begins_with_reconnect [OF pos, of isQuery as errorMsg c2]
            loop_silent [OF pos le', of isQuery as errorMsg]
          by (auto simp: here eq)
      next
        case later
        have b: "unat (attempt + 1) + reconnect_calls pre' \<le> unat M"
          using Cons.prems(4) by (simp add: n later)
        from Cons.IH [OF c2 pos later(2) b] show ?thesis by (simp add: eq)
      qed
    qed
  qed
qed

lemma falls_through:
  assumes "unat (m_reconnectAttempts c) + 1 < 2 ^ 32"
    and "trace (executeQueryWithReconnect isQuery answers c) =
           pre @ ExecuteCall (Inl (SQLExecutionError em code)) # post"
    and "isConnectionError code"
    and "reconnect_calls pre < unat (m_reconnectAttempts c)"
  shows "(\<exists>b post'. post = ReconnectCall b # post') \<or>
         post = [] \<and> outcome (executeQueryWithReconnect isQuery answers c) = None"
proof (cases answers)
  case Nil
  then show ?thesis using assms(2) by (simp add: executeQueryWithReconnect_def loop_running)
next
  case (Cons a as)
  let ?M = "m_reconnectAttempts c"
  have le: "0 \<le> ?M" by simp
  have pos: "(0 :: u32) + 1 > 0" by simp
  have t: "trace (executeQueryWithReconnect_loop isQuery (a # as) 0 [] c) =
           pre @ ExecuteCall (Inl (SQLExecutionError em code)) # post"
    using assms(2) by (simp add: executeQueryWithReconnect_def Cons)
  show ?thesis
  proof (cases isQuery a "0 :: u32" c rule: iteration_cases)
    case stuck
    then show ?thesis by simp
  next
    case (init_failed c1)
    then show ?thesis by simp
  next
    case (reconnect_failed c1)
    then show ?thesis by simp
  next
    case (returned queryResult c2)
    then show ?thesis using t by (auto simp: loop_leaves [OF le] Cons_eq_append_conv)
  next
    case (sql_error errorMsg errorCode c2)
    then show ?thesis using t assms(3) by (auto simp: loop_leaves [OF le] Cons_eq_append_conv)
  next
    case (transport_error errorMsg errorCode c2)
    let ?r = "executeQueryWithReconnect_loop isQuery as (0 + 1) errorMsg c2"
    have eq: "executeQueryWithReconnect_loop isQuery (a # as) 0 [] c =
        preceded_by [ExecuteCall (Inl (SQLExecutionError errorMsg errorCode))] ?r"
      using loop_next [OF le transport_error(3)] by simp
    have eq': "executeQueryWithReconnect isQuery answers c =
        preceded_by [ExecuteCall (Inl (SQLExecutionError errorMsg errorCode))] ?r"
      by (simp only: executeQueryWithReconnect_def Cons eq)
    have c2: "m_reconnectAttempts c2 = ?M" using transport_error by simp
    from t consider (here) "pre = []" "post = trace ?r"
      | (later) pre' where
          "pre = ExecuteCall (Inl (SQLExecutionError errorMsg errorCode)) # pre'"
          "trace ?r = pre' @ ExecuteCall (Inl (SQLExecutionError em code)) # post"
      unfolding eq by (auto simp: Cons_eq_append_conv)
    then show ?thesis
    proof cases
      case here
      have "1 \<le> unat ?M" using assms(4) here by simp
      then have le': "0 + 1 \<le> m_reconnectAttempts c2" by (simp add: c2 word_le_nat_alt)
      show ?thesis
        using loop_begins_with_reconnect [OF pos, of isQuery as errorMsg c2]
          loop_silent [OF pos le', of isQuery as errorMsg]
        by (auto simp: here eq')
    next
      case later
      have b: "unat ((0 :: u32) + 1) + reconnect_calls pre' \<le> unat ?M"
        using assms(4) by (simp add: later)
      from loop_falls_through [OF assms(1) c2 pos later(2) assms(3) b]
      show ?thesis by (simp add: eq')
    qed
  qed
qed

lemma loop_uses_all_attempts:
  assumes "unat M + 1 < 2 ^ 32" and "m_reconnectAttempts c = M"
    and "outcome (executeQueryWithReconnect_loop isQuery as attempt errorMessage c) =
           Some (Inl (AttemptsExhausted em))"
  shows "executeInternal_calls (executeQueryWithReconnect_loop isQuery as attempt errorMessage c) +
         failed_reconnects (executeQueryWithReconnect_loop isQuery as attempt errorMessage c) =
           unat M + 1 - unat attempt"
  using assms(2,3)
proof (induction as arbitrary: attempt errorMessage c)
  case Nil
  show ?case
  proof (cases "attempt \<le> m_reconnectAttempts c")
    case True
    then show ?thesis using Nil by (simp add: loop_running)
  next
    case False
    then have "unat M < unat attempt" using Nil by (simp add: word_le_nat_alt)
    then show ?thesis using False
      by (simp add: loop_exhausted executeInternal_calls_def failed_reconnects_def)
  qed
next
  case (Cons a as)
  show ?case
  proof (cases "attempt \<le> m_reconnectAttempts c")
    case False
    then have "unat M < unat attempt" using Cons.prems by (simp add: word_le_nat_alt)
    then show ?thesis using False
      by (simp add: loop_exhausted executeInternal_calls_def failed_reconnects_def)
  next
    case le: True
    then have leM: "attempt \<le> M" using Cons.prems by simp
    have u: "unat attempt \<le> unat M" using leM by (simp add: word_le_nat_alt)
    note n = next_attempt(1) [OF leM assms(1)]
    show ?thesis
    proof (cases isQuery a attempt c rule: iteration_cases)
      case stuck
      then show ?thesis using Cons.prems by (simp add: loop_leaves [OF le])
    next
      case (init_failed c1)
      then show ?thesis using Cons.prems by (simp add: loop_leaves [OF le])
    next
      case (reconnect_failed c1)
      let ?r = "executeQueryWithReconnect_loop isQuery as (attempt + 1) ''Failed to reconnect'' c1"
      have eq: "executeQueryWithReconnect_loop isQuery (a # as) attempt errorMessage c =
          preceded_by [ReconnectCall (Inr False)] ?r"
        by (rule loop_next [OF le reconnect_failed(3)])
      have c1: "m_reconnectAttempts c1 = M" using reconnect_failed Cons.prems by simp
      have o: "outcome ?r = Some (Inl (AttemptsExhausted em))" using Cons.prems(2) by (simp add: eq)
      have "executeInternal_calls ?r + failed_reconnects ?r = unat M + 1 - (unat attempt + 1)"
        using Cons.IH [OF c1 o] by (simp only: n)
      then show ?thesis using u
        by (simp add: eq executeInternal_calls_def failed_reconnects_def)
    next
      case (returned queryResult c2)
      then show ?thesis using Cons.prems by (simp add: loop_leaves [OF le])
    next
      case (sql_error errorMsg errorCode c2)
      then show ?thesis using Cons.prems by (simp add: loop_leaves [OF le])
    next
      case (transport_error errorMsg errorCode c2)
      let ?r = "executeQueryWithReconnect_loop isQuery as (attempt + 1) errorMsg c2"
      let ?calls = "(if attempt > 0 then [ReconnectCall (Inr True)] else []) @
            [ExecuteCall (Inl (SQLExecutionError errorMsg errorCode))]"
      have eq: "executeQueryWithReconnect_loop isQuery (a # as) attempt errorMessage c =
          preceded_by ?calls ?r"
        by (rule loop_next [OF le transport_error(3)])
      have c2: "m_reconnectAttempts c2 = M" using transport_error Cons.prems by simp
      have o: "outcome ?r = Some (Inl (AttemptsExhausted em))" using Cons.prems(2) by (simp add: eq)
      have "executeInternal_calls ?r + failed_reconnects ?r = unat M + 1 - (unat attempt + 1)"
        using Cons.IH [OF c2 o] by (simp only: n)
      then show ?thesis using u
        by (simp add: eq executeInternal_calls_def failed_reconnects_def)
    qed
  qed
qed

lemma loop_success:
  "outcome (executeQueryWithReconnect_loop isQuery as attempt errorMessage c) = Some (Inr queryResult) \<longleftrightarrow>
     trace (executeQueryWithReconnect_loop isQuery as attempt errorMessage c) \<noteq> [] \<and>
     last (trace (executeQueryWithReconnect_loop isQuery as attempt errorMessage c)) =
       ExecuteCall (Inr queryResult)"
  "outcome (executeQueryWithReconnect_loop isQuery as attempt errorMessage c) = Some (Inr queryResult) \<Longrightarrow>
     recorded (executeQueryWithReconnect_loop isQuery as attempt errorMessage c) = [True]"
proof (induction as arbitrary: attempt errorMessage c)
  case Nil
  {
    case 1
    show ?case
      by (cases "attempt \<le> m_reconnectAttempts c") (simp_all add: loop_running loop_exhausted)
  next
    case 2
    then show ?case
      by (cases "attempt \<le> m_reconnectAttempts c") (simp_all add: loop_running loop_exhausted)
  }
next
  case (Cons a as)
  {
    case 1
    show ?case
    proof (cases "attempt \<le> m_reconnectAttempts c")
      case False
      then show ?thesis by (simp add: loop_exhausted)
    next
      case le: True
      show ?thesis
      proof (cases isQuery a attempt c rule: iteration_cases)
        case (reconnect_failed c1)
        then show ?thesis using Cons.IH(1) [of "attempt + 1" "''Failed to reconnect''" c1]
          by (simp add: loop_next [OF le])
      next
        case (transport_error errorMsg errorCode c2)
        then show ?thesis using Cons.IH(1) [of "attempt + 1" errorMsg c2]
          by (simp add: loop_next [OF le])
      qed (auto simp: loop_leaves [OF le])
    qed
  next
    case 2
    show ?case
    proof (cases "attempt \<le> m_reconnectAttempts c")
      case False
      then show ?thesis using 2 by (simp add: loop_exhausted)
    next
      case le: True
      show ?thesis
      proof (cases isQuery a attempt c rule: iteration_cases)
        case (reconnect_failed c1)
        then show ?thesis using Cons.IH(2) [of "attempt + 1" "''Failed to reconnect''" c1] 2
          by (simp add: loop_next [OF le])
      next
        case (transport_error errorMsg errorCode c2)
        then show ?thesis using Cons.IH(2) [of "attempt + 1" errorMsg c2] 2
          by (simp add: loop_next [OF le])
      qed (use 2 in \<open>auto simp: loop_leaves [OF le]\<close>)
    qed
  }
qed

lemma first_call_executes:
  assumes "answers \<noteq> []"
  shows "\<exists>x rest. trace (executeQueryWithReconnect isQuery answers c) = ExecuteCall x # rest"
proof -
  obtain a as where answers: "answers = a # as" using assms by (cases answers) auto
  have le: "0 \<le> m_reconnectAttempts c" by simp
  show ?thesis
    by (cases isQuery a "0 :: u32" c rule: iteration_cases)
       (simp_all add: answers executeQueryWithReconnect_def loop_leaves [OF le] loop_next [OF le])
qed


lemma loop_executes_after_reconnect:
  assumes "trace (executeQueryWithReconnect_loop isQuery as attempt errorMessage c) =
             pre @ ReconnectCall (Inr True) # post"
  shows "\<exists>x post'. post = ExecuteCall x # post'"
  using assms
proof (induction as arbitrary: attempt errorMessage c pre)
  case Nil
  then show ?case
    by (cases "attempt \<le> m_reconnectAttempts c") (simp_all add: loop_running loop_exhausted)
next
  case (Cons a as)
  show ?case
  proof (cases "attempt \<le> m_reconnectAttempts c")
    case False
    then show ?thesis using Cons.prems by (simp add: loop_exhausted)
  next
    case le: True
    show ?thesis
    proof (cases isQuery a attempt c rule: iteration_cases)
      case stuck
      then show ?thesis using Cons.prems by (simp add: loop_leaves [OF le])
    next
      case (init_failed c1)
      then show ?thesis using Cons.prems by (simp add: loop_leaves [OF le] Cons_eq_append_conv)
    next
      case (reconnect_failed c1)
      then obtain pre' where
        "trace (executeQueryWithReconnect_loop isQuery as (attempt + 1) ''Failed to reconnect'' c1) =
           pre' @ ReconnectCall (Inr True) # post"
        using Cons.prems by (auto simp: loop_next [OF le] Cons_eq_append_conv)
      then show ?thesis by (rule Cons.IH)
    next
      case (returned queryResult c2)
      then show ?thesis using Cons.prems
        by (auto simp: loop_leaves [OF le] Cons_eq_append_conv split: if_splits)
    next
      case (sql_error errorMsg errorCode c2)
      then show ?thesis using Cons.prems
        by (auto simp: loop_leaves [OF le] Cons_eq_append_conv split: if_splits)
    next
      case (transport_error errorMsg errorCode c2)
      let ?rest = "trace (executeQueryWithReconnect_loop isQuery as (attempt + 1) errorMsg c2)"
      from transport_error Cons.prems
      consider (here) "post = ExecuteCall (Inl (SQLExecutionError errorMsg errorCode)) # ?rest"
        | (later) pre' where "?rest = pre' @ ReconnectCall (Inr True) # post"
        by (auto simp: loop_next [OF le] Cons_eq_append_conv split: if_splits)
      then show ?thesis
      proof cases
        case here
        then show ?thesis by simp
      next
        case later
        then show ?thesis by (rule Cons.IH)
      qed
    qed
  qed
qed

lemma loop_execute_followed:
  assumes "trace (executeQueryWithReconnect_loop isQuery as attempt errorMessage c) =
             pre @ ExecuteCall x # following # post"
  shows "\<exists>em code. x = Inl (SQLExecutionError em code) \<and> isConnectionError code"
  using assms
proof (induction as arbitrary: attempt errorMessage c pre)
  case Nil
  then show ?case
    by (cases "attempt \<le> m_reconnectAttempts c") (simp_all add: loop_running loop_exhausted)
next
  case (Cons a as)
  show ?case
  proof (cases "attempt \<le> m_reconnectAttempts c")
    case False
    then show ?thesis using Cons.prems by (simp add: loop_exhausted)
  next
    case le: True
    show ?thesis
    proof (cases isQuery a attempt c rule: iteration_cases)
      case stuck
      then show ?thesis using Cons.prems by (simp add: loop_leaves [OF le])
    next
      case (init_failed c1)
      then show ?thesis using Cons.prems by (simp add: loop_leaves [OF le] Cons_eq_append_conv)
    next
      case (reconnect_failed c1)
      then obtain pre' where
        "trace (executeQueryWithReconnect_loop isQuery as (attempt + 1) ''Failed to reconnect'' c1) =
           pre' @ ExecuteCall x # following # post"
        using Cons.prems by (auto simp: loop_next [OF le] Cons_eq_append_conv)
      then show ?thesis by (rule Cons.IH)
    next
      case (returned queryResult c2)
      then show ?thesis using Cons.prems
        by (auto simp: loop_leaves [OF le] Cons_eq_append_conv split: if_splits)
    next
      case (sql_error errorMsg errorCode c2)
      then show ?thesis using Cons.prems
        by (auto simp: loop_leaves [OF le] Cons_eq_append_conv split: if_splits)
    next
      case (transport_error errorMsg errorCode c2)
      let ?rest = "trace (executeQueryWithReconnect_loop isQuery as (attempt + 1) errorMsg c2)"
      from transport_error Cons.prems
      consider (here) "x = Inl (SQLExecutionError errorMsg errorCode)"
        | (later) pre' where "?rest = pre' @ ExecuteCall x # following # post"
        by (auto simp: loop_next [OF le] Cons_eq_append_conv split: if_splits)
      then show ?thesis
      proof cases
        case here
        then show ?thesis using transport_error(1) by simp
      next
        case later
        then show ?thesis by (rule Cons.IH)
      qed
    qed
  qed
qed

lemma loop_iterations_bound:
  assumes "unat M + 1 < 2 ^ 32" and "m_reconnectAttempts c = M"
  shows "executeInternal_calls (executeQueryWithReconnect_loop isQuery as attempt errorMessage c) +
         failed_reconnects (executeQueryWithReconnect_loop isQuery as attempt errorMessage c)
           \<le> unat M + 1 - unat attempt"
  using assms(2)
proof (induction as arbitrary: attempt errorMessage c)
  case Nil
  then show ?case
    by (cases "attempt \<le> M")
       (simp_all add: loop_running loop_exhausted executeInternal_calls_def failed_reconnects_def)
next
  case (Cons a as)
  show ?case
  proof (cases "attempt \<le> M")
    case False
    then show ?thesis using Cons.prems
      by (simp add: loop_exhausted executeInternal_calls_def failed_reconnects_def)
  next
    case True
    then have le: "attempt \<le> m_reconnectAttempts c" using Cons.prems by simp
    have u: "unat attempt \<le> unat M" using True by (simp add: word_le_nat_alt)
    note n = next_attempt(1) [OF True assms(1)]
    show ?thesis
    proof (cases isQuery a attempt c rule: iteration_cases)
      case stuck
      then show ?thesis by (simp add: loop_leaves [OF le] executeInternal_calls_def failed_reconnects_def)
    next
      case (init_failed c1)
      then show ?thesis by (simp add: loop_leaves [OF le] executeInternal_calls_def failed_reconnects_def)
    next
      case (reconnect_failed c1)
      let ?r = "executeQueryWithReconnect_loop isQuery as (attempt + 1) ''Failed to reconnect'' c1"
      have c1: "m_reconnectAttempts c1 = M" using reconnect_failed Cons.prems by simp
      have "executeInternal_calls ?r + failed_reconnects ?r \<le> unat M + 1 - (unat attempt + 1)"
        using Cons.IH [OF c1, of "attempt + 1" "''Failed to reconnect''"] by (simp only: n)
      then show ?thesis using u
        by (simp add: loop_next [OF le reconnect_failed(3)] executeInternal_calls_def failed_reconnects_def)
    next
      case (returned queryResult c2)
      then show ?thesis using u
        by (simp add: loop_leaves [OF le] executeInternal_calls_def failed_reconnects_def)
    next
      case (sql_error errorMsg errorCode c2)
      then show ?thesis using u
        by (simp add: loop_leaves [OF le] executeInternal_calls_def failed_reconnects_def)
    next
      case (transport_error errorMsg errorCode c2)
      let ?r = "executeQueryWithReconnect_loop isQuery as (attempt + 1) errorMsg c2"
      have c2: "m_reconnectAttempts c2 = M" using transport_error Cons.prems by simp
      have "executeInternal_calls ?r + failed_reconnects ?r \<le> unat M + 1 - (unat attempt + 1)"
        using Cons.IH [OF c2, of "attempt + 1" errorMsg] by (simp only: n)
      then show ?thesis using u
        by (simp add: loop_next [OF le transport_error(3)] executeInternal_calls_def failed_reconnects_def)
    qed
  qed
qed

lemma loop_exhausts:
  assumes "unat M + 1 < 2 ^ 32" and "m_reconnectAttempts c = M"
    and "executeInternal_calls (executeQueryWithReconnect_loop isQuery as attempt errorMessage c) +
         failed_reconnects (executeQueryWithReconnect_loop isQuery as attempt errorMessage c) =
           unat M + 1 - unat attempt"
    and "trace (executeQueryWithReconnect_loop isQuery as attempt errorMessage c) = pre @ [made]"
    and "(\<exists>code. made = ExecuteCall (Inl (SQLExecutionError em code)) \<and> isConnectionError code) \<or>
         made = ReconnectCall (Inr False) \<and> em = ''Failed to reconnect''"
  shows "outcome (executeQueryWithReconnect_loop isQuery as attempt errorMessage c) =
           Some (Inl (AttemptsExhausted em)) \<and>
         recorded (executeQueryWithReconnect_loop isQuery as attempt errorMessage c) = [False]"
  using assms(2,3,4)
proof (induction as arbitrary: attempt errorMessage c pre)
  case Nil
  then show ?case
    by (cases "attempt \<le> m_reconnectAttempts c") (simp_all add: loop_running loop_exhausted)
next
  case (Cons a as)
  show ?case
  proof (cases "attempt \<le> m_reconnectAttempts c")
    case False
    then show ?thesis using Cons.prems by (simp add: loop_exhausted)
  next
    case le: True
    then have leM: "attempt \<le> M" using Cons.prems by simp
    have u: "unat attempt \<le> unat M" using leM by (simp add: word_le_nat_alt)
    note n = next_attempt(1) [OF leM assms(1)]
    have continues: "outcome (preceded_by calls r) = Some (Inl (AttemptsExhausted em)) \<and>
        recorded (preceded_by calls r) = [False]"
      if r: "r = executeQueryWithReconnect_loop isQuery as (attempt + 1) em' c'"
        and c': "m_reconnectAttempts c' = M"
        and calls: "calls \<noteq> []" "length (filter is_execute calls) +
            length (filter (\<lambda>made. made = ReconnectCall (Inr False)) calls) = 1"
        and lastcall: "made = last calls \<Longrightarrow> em' = em"
        and whole: "executeQueryWithReconnect_loop isQuery (a # as) attempt errorMessage c =
            preceded_by calls r"
      for r calls em' c'
    proof (cases "trace r = []")
      case True
      then have "executeInternal_calls r + failed_reconnects r = 0"
        by (simp add: executeInternal_calls_def failed_reconnects_def)
      then have "unat M + 1 - unat attempt = 1"
        using Cons.prems(2) calls(2) unfolding whole
        by (simp add: executeInternal_calls_def failed_reconnects_def)
      then have "unat M < unat (attempt + 1)" using u by (simp add: n)
      then have "\<not> attempt + 1 \<le> m_reconnectAttempts c'" by (simp add: c' word_le_nat_alt)
      then have x: "r = \<lparr>outcome = Some (Inl (AttemptsExhausted em')), session = c', trace = [],
            recorded = [False]\<rparr>"
        unfolding r by (rule loop_exhausted)
      have "made = last calls"
        using Cons.prems(3) True calls(1) unfolding whole
        by (simp add: preceded_by_def)
      then have "em' = em" by (rule lastcall)
      then show ?thesis by (simp add: x preceded_by_def)
    next
      case False
      then obtain pre' where t: "trace r = pre' @ [made]"
        using Cons.prems(3) unfolding whole
        by (simp add: preceded_by_def) (metis append_butlast_last_id last_appendR last_snoc)
      have "executeInternal_calls r + failed_reconnects r + 1 = unat M + 1 - unat attempt"
        using Cons.prems(2) calls(2) unfolding whole
        by (simp add: executeInternal_calls_def failed_reconnects_def)
      then have "executeInternal_calls r + failed_reconnects r = unat M + 1 - unat (attempt + 1)"
        by (simp add: n)
      from Cons.IH [OF c' this [unfolded r] t [unfolded r]] show ?thesis
        by (simp add: r)
    qed
    show ?thesis
    proof (cases isQuery a attempt c rule: iteration_cases)
      case stuck
      then show ?thesis using Cons.prems by (simp add: loop_leaves [OF le])
    next
      case (init_failed c1)
      then show ?thesis using Cons.prems assms(5) by (auto simp: loop_leaves [OF le])
    next
      case (reconnect_failed c1)
      have c1: "m_reconnectAttempts c1 = M" using reconnect_failed Cons.prems by simp
      have whole: "executeQueryWithReconnect_loop isQuery (a # as) attempt errorMessage c =
          preceded_by [ReconnectCall (Inr False)]
            (executeQueryWithReconnect_loop isQuery as (attempt + 1) ''Failed to reconnect'' c1)"
        by (rule loop_next [OF le reconnect_failed(3)])
      have "made = last [ReconnectCall (Inr False)] \<Longrightarrow> ''Failed to reconnect'' = em"
        using assms(5) by auto
      from continues [OF refl c1 _ _ this whole] show ?thesis by (simp add: whole)
    next
      case (returned queryResult c2)
      then show ?thesis using Cons.prems assms(5)
        by (auto simp: loop_leaves [OF le] split: if_splits)
    next
      case (sql_error errorMsg errorCode c2)
      then show ?thesis using Cons.prems assms(5)
        by (auto simp: loop_leaves [OF le] split: if_splits)
    next
      case (transport_error errorMsg errorCode c2)
      let ?calls = "(if attempt > 0 then [ReconnectCall (Inr True)] else []) @
            [ExecuteCall (Inl (SQLExecutionError errorMsg errorCode))]"
      have c2: "m_reconnectAttempts c2 = M" using transport_error Cons.prems by simp
      have whole: "executeQueryWithReconnect_loop isQuery (a # as) attempt errorMessage c =
          preceded_by ?calls (executeQueryWithReconnect_loop isQuery as (attempt + 1) errorMsg c2)"
        by (rule loop_next [OF le transport_error(3)])
      have "made = last ?calls \<Longrightarrow> errorMsg = em"
        using assms(5) by auto
      from continues [OF refl c2 _ _ this whole] show ?thesis by (simp add: whole)
    qed
  qed
qed

text \<open>
  The claim C6 as it is written fails for \<open>reconnect_attempts = 4294967295\<close>, the
  largest \<open>unsigned int\<close>: the loop test \<open>attempt <= m_reconnectAttempts\<close> is then always
  true and the counter wraps to 0, so the attempts are never exhausted. While every
  statement fails with a transport error and every reconnect succeeds, each iteration
  calls \<open>executeInternal\<close> once more: 4294967297 iterations make 4294967297 calls, more
  than \<open>reconnect_attempts + 1 = 4294967296\<close>.
\<close>

theorem executeQueryWithReconnect_counterexample:
  "unat (m_reconnectAttempts tireless_session) + 1 = 4294967296 \<and>
   executeInternal_calls
     (executeQueryWithReconnect True (replicate 4294967297 server_gone) tireless_session) = 4294967297"
proof (rule conjI)
  show "unat (m_reconnectAttempts tireless_session) + 1 = 4294967296"
    by (simp add: tireless_session_def)
  have "m_reconnectAttempts tireless_session = - 1" by (simp add: tireless_session_def)
  then show "executeInternal_calls
     (executeQueryWithReconnect True (replicate 4294967297 server_gone) tireless_session) = 4294967297"
    unfolding executeQueryWithReconnect_def by (rule server_gone_loop)
qed

text \<open>
  C6, amended. For \<open>reconnect_attempts\<close> below 4294967295:
  \<^item> \<open>executeInternal\<close> is called at most \<open>reconnect_attempts + 1\<close> times, also when the
    calls of \<open>reconnect\<close> that returned false are counted with them, and the first call
    that is made is a call of \<open>executeInternal\<close>;
  \<^item> the function returns a result exactly when the last call made is a call of
    \<open>executeInternal\<close> that returned this result, and the query is then recorded as
    successful;
  \<^item> a call of \<open>executeInternal\<close> that fails with an SQL error whose kind is not a
    transport error is the last call made: the function throws the runtime error for
    other errors at once, and the query is recorded as failed;
  \<^item> a call of \<open>executeInternal\<close> that fails with a transport error while fewer than
    \<open>reconnect_attempts\<close> calls of \<open>reconnect\<close> have been made falls through to the
    next attempt: the next call is a \<open>reconnect\<close>, unless the driver's answers end there
    and the function is still running;
  \<^item> a \<open>reconnect\<close> that succeeds is followed by a call of \<open>executeInternal\<close>;
  \<^item> a call of \<open>executeInternal\<close> that is followed by another call failed with a
    transport error, and the call that follows it is a \<open>reconnect\<close>;
  \<^item> when all attempts were made and the last call is an \<open>executeInternal\<close> that failed
    with a transport error, or a \<open>reconnect\<close> that returned false, the function throws
    the runtime error that carries its message, and the query is recorded as failed;
  \<^item> the attempts are exhausted only when all of them were made: the calls of
    \<open>executeInternal\<close> and the calls of \<open>reconnect\<close> that returned false then number
    \<open>reconnect_attempts + 1\<close>, the query is recorded as failed, and the runtime error
    carries the last error message: that of the last \<open>executeInternal\<close>, which failed
    with a transport error, or that of the last \<open>reconnect\<close>, which failed;
  \<^item> the function returns or throws once it has the driver's answers for
    \<open>reconnect_attempts + 1\<close> iterations, each with \<open>reconnect_attempts\<close> connects.
\<close>

theorem executeQueryWithReconnect_attempts:
  assumes "unat (m_reconnectAttempts c) + 1 < 2 ^ 32"
  shows "executeInternal_calls (executeQueryWithReconnect isQuery answers c)
           \<le> unat (m_reconnectAttempts c) + 1 \<and>
         executeInternal_calls (executeQueryWithReconnect isQuery answers c) +
           failed_reconnects (executeQueryWithReconnect isQuery answers c)
           \<le> unat (m_reconnectAttempts c) + 1 \<and>
         (answers \<noteq> [] \<longrightarrow>
            (\<exists>x rest. trace (executeQueryWithReconnect isQuery answers c) = ExecuteCall x # rest)) \<and>
         (\<forall>queryResult.
            outcome (executeQueryWithReconnect isQuery answers c) = Some (Inr queryResult) \<longleftrightarrow>
            trace (executeQueryWithReconnect isQuery answers c) \<noteq> [] \<and>
            last (trace (executeQueryWithReconnect isQuery answers c)) = ExecuteCall (Inr queryResult)) \<and>
         (\<forall>queryResult.
            outcome (executeQueryWithReconnect isQuery answers c) = Some (Inr queryResult) \<longrightarrow>
            recorded (executeQueryWithReconnect isQuery answers c) = [True]) \<and>
         (\<forall>pre em code post.
            trace (executeQueryWithReconnect isQuery answers c) =
              pre @ ExecuteCall (Inl (SQLExecutionError em code)) # post \<and>
            \<not> isConnectionError code \<longrightarrow>
            post = [] \<and>
            outcome (executeQueryWithReconnect isQuery answers c) = Some (Inl OtherErrors) \<and>
            recorded (executeQueryWithReconnect isQuery answers c) = [False]) \<and>
         (\<forall>pre em code post.
            trace (executeQueryWithReconnect isQuery answers c) =
              pre @ ExecuteCall (Inl (SQLExecutionError em code)) # post \<and>
            isConnectionError code \<and> reconnect_calls pre < unat (m_reconnectAttempts c) \<longrightarrow>
            (\<exists>b post'. post = ReconnectCall b # post') \<or>
            post = [] \<and> outcome (executeQueryWithReconnect isQuery answers c) = None) \<and>
         (\<forall>pre post.
            trace (executeQueryWithReconnect isQuery answers c) = pre @ ReconnectCall (Inr True) # post \<longrightarrow>
            (\<exists>x post'. post = ExecuteCall x # post')) \<and>
         (\<forall>pre x following post.
            trace (executeQueryWithReconnect isQuery answers c) =
              pre @ ExecuteCall x # following # post \<longrightarrow>
            (\<exists>em code. x = Inl (SQLExecutionError em code) \<and> isConnectionError code) \<and>
            (\<exists>b. following = ReconnectCall b)) \<and>
         (executeInternal_calls (executeQueryWithReconnect isQuery answers c) +
            failed_reconnects (executeQueryWithReconnect isQuery answers c) =
            unat (m_reconnectAttempts c) + 1 \<longrightarrow>
          (\<forall>pre em code.
             trace (executeQueryWithReconnect isQuery answers c) =
               pre @ [ExecuteCall (Inl (SQLExecutionError em code))] \<and> isConnectionError code \<longrightarrow>
             outcome (executeQueryWithReconnect isQuery answers c) =
               Some (Inl (AttemptsExhausted em)) \<and>
             recorded (executeQueryWithReconnect isQuery answers c) = [False]) \<and>
          (\<forall>pre.
             trace (executeQueryWithReconnect isQuery answers c) = pre @ [ReconnectCall (Inr False)] \<longrightarrow>
             outcome (executeQueryWithReconnect isQuery answers c) =
               Some (Inl (AttemptsExhausted ''Failed to reconnect'')) \<and>
             recorded (executeQueryWithReconnect isQuery answers c) = [False])) \<and>
         (\<forall>em.
            outcome (executeQueryWithReconnect isQuery answers c) =
              Some (Inl (AttemptsExhausted em)) \<longrightarrow>
            recorded (executeQueryWithReconnect isQuery answers c) = [False] \<and>
            executeInternal_calls (executeQueryWithReconnect isQuery answers c) +
              failed_reconnects (executeQueryWithReconnect isQuery answers c) =
              unat (m_reconnectAttempts c) + 1 \<and>
            ((\<exists>pre code. trace (executeQueryWithReconnect isQuery answers c) =
                pre @ [ExecuteCall (Inl (SQLExecutionError em code))] \<and> isConnectionError code) \<or>
             (\<exists>pre. trace (executeQueryWithReconnect isQuery answers c) =
                pre @ [ReconnectCall (Inr False)] \<and> em = ''Failed to reconnect''))) \<and>
         (unat (m_reconnectAttempts c) + 1 \<le> length answers \<and>
          (\<forall>a\<in>set answers. unat (m_reconnectAttempts c) \<le> length (connects (reconnecting a))) \<longrightarrow>
          outcome (executeQueryWithReconnect isQuery answers c) \<noteq> None)"
proof (intro conjI allI impI)
  let ?r = "executeQueryWithReconnect isQuery answers c"
  show "executeInternal_calls ?r \<le> unat (m_reconnectAttempts c) + 1"
    using loop_calls_bound [OF assms refl, of isQuery answers 0 "[]"]
    by (simp add: executeQueryWithReconnect_def)
next
  show "executeInternal_calls (executeQueryWithReconnect isQuery answers c) +
      failed_reconnects (executeQueryWithReconnect isQuery answers c)
      \<le> unat (m_reconnectAttempts c) + 1"
    using loop_iterations_bound [OF assms refl, of isQuery answers 0 "[]"]
    by (simp add: executeQueryWithReconnect_def)
next
  assume "answers \<noteq> []"
  then show "\<exists>x rest. trace (executeQueryWithReconnect isQuery answers c) = ExecuteCall x # rest"
    by (rule first_call_executes)
next
  fix queryResult
  show "outcome (executeQueryWithReconnect isQuery answers c) = Some (Inr queryResult) \<longleftrightarrow>
        trace (executeQueryWithReconnect isQuery answers c) \<noteq> [] \<and>
        last (trace (executeQueryWithReconnect isQuery answers c)) = ExecuteCall (Inr queryResult)"
    unfolding executeQueryWithReconnect_def by (rule loop_success(1))
next
  fix queryResult
  assume "outcome (executeQueryWithReconnect isQuery answers c) = Some (Inr queryResult)"
  then show "recorded (executeQueryWithReconnect isQuery answers c) = [True]"
    unfolding executeQueryWithReconnect_def by (rule loop_success(2))
next
  fix pre em code post
  assume "trace (executeQueryWithReconnect isQuery answers c) =
      pre @ ExecuteCall (Inl (SQLExecutionError em code)) # post \<and> \<not> isConnectionError code"
  then have t: "trace (executeQueryWithReconnect_loop isQuery answers 0 [] c) =
      pre @ ExecuteCall (Inl (SQLExecutionError em code)) # post" and n: "\<not> isConnectionError code"
    by (simp_all add: executeQueryWithReconnect_def)
  note l = loop_sql_error_is_last [OF t n]
  show "post = []" using l by simp
  show "outcome (executeQueryWithReconnect isQuery answers c) = Some (Inl OtherErrors)"
    using l by (simp add: executeQueryWithReconnect_def)
  show "recorded (executeQueryWithReconnect isQuery answers c) = [False]"
    using l by (simp add: executeQueryWithReconnect_def)
next
  fix pre em code post
  assume "trace (executeQueryWithReconnect isQuery answers c) =
      pre @ ExecuteCall (Inl (SQLExecutionError em code)) # post \<and>
      isConnectionError code \<and> reconnect_calls pre < unat (m_reconnectAttempts c)"
  then show "(\<exists>b post'. post = ReconnectCall b # post') \<or>
      post = [] \<and> outcome (executeQueryWithReconnect isQuery answers c) = None"
    using falls_through [OF assms, of isQuery answers pre em code post] by blast
next
  fix pre post
  assume "trace (executeQueryWithReconnect isQuery answers c) = pre @ ReconnectCall (Inr True) # post"
  then show "\<exists>x post'. post = ExecuteCall x # post'"
    unfolding executeQueryWithReconnect_def by (rule loop_executes_after_reconnect)
next
  fix pre x following post
  assume "trace (executeQueryWithReconnect isQuery answers c) =
      pre @ ExecuteCall x # following # post"
  then have t: "trace (executeQueryWithReconnect_loop isQuery answers 0 [] c) =
      pre @ ExecuteCall x # following # post"
    by (simp add: executeQueryWithReconnect_def)
  show "\<exists>em code. x = Inl (SQLExecutionError em code) \<and> isConnectionError code"
    by (rule loop_execute_followed [OF t])
  show "\<exists>b. following = ReconnectCall b"
    by (rule loop_reconnects_after_execute [OF assms refl t])
next
  fix pre em code
  assume all: "executeInternal_calls (executeQueryWithReconnect isQuery answers c) +
      failed_reconnects (executeQueryWithReconnect isQuery answers c) =
      unat (m_reconnectAttempts c) + 1"
    and "trace (executeQueryWithReconnect isQuery answers c) =
      pre @ [ExecuteCall (Inl (SQLExecutionError em code))] \<and> isConnectionError code"
  then have t: "trace (executeQueryWithReconnect_loop isQuery answers 0 [] c) =
      pre @ [ExecuteCall (Inl (SQLExecutionError em code))]"
    and made: "(\<exists>code'. ExecuteCall (Inl (SQLExecutionError em code)) =
          ExecuteCall (Inl (SQLExecutionError em code')) \<and> isConnectionError code') \<or>
        ExecuteCall (Inl (SQLExecutionError em code)) = ReconnectCall (Inr False) \<and>
          em = ''Failed to reconnect''"
    by (simp_all add: executeQueryWithReconnect_def)
  have n: "executeInternal_calls (executeQueryWithReconnect_loop isQuery answers 0 [] c) +
      failed_reconnects (executeQueryWithReconnect_loop isQuery answers 0 [] c) =
      unat (m_reconnectAttempts c) + 1 - unat (0 :: u32)"
    using all by (simp add: executeQueryWithReconnect_def)
  note l = loop_exhausts [OF assms refl n t made]
  show "outcome (executeQueryWithReconnect isQuery answers c) = Some (Inl (AttemptsExhausted em))"
    using l by (simp add: executeQueryWithReconnect_def)
  show "recorded (executeQueryWithReconnect isQuery answers c) = [False]"
    using l by (simp add: executeQueryWithReconnect_def)
next
  fix pre
  assume all: "executeInternal_calls (executeQueryWithReconnect isQuery answers c) +
      failed_reconnects (executeQueryWithReconnect isQuery answers c) =
      unat (m_reconnectAttempts c) + 1"
    and "trace (executeQueryWithReconnect isQuery answers c) = pre @ [ReconnectCall (Inr False)]"
  then have t: "trace (executeQueryWithReconnect_loop isQuery answers 0 [] c) =
      pre @ [ReconnectCall (Inr False)]"
    by (simp add: executeQueryWithReconnect_def)
  have made: "(\<exists>code. ReconnectCall (Inr False) =
          ExecuteCall (Inl (SQLExecutionError ''Failed to reconnect'' code)) \<and> isConnectionError code) \<or>
        ReconnectCall (Inr False) = ReconnectCall (Inr False) \<and>
          ''Failed to reconnect'' = ''Failed to reconnect''"
    by simp
  have n: "executeInternal_calls (executeQueryWithReconnect_loop isQuery answers 0 [] c) +
      failed_reconnects (executeQueryWithReconnect_loop isQuery answers 0 [] c) =
      unat (m_reconnectAttempts c) + 1 - unat (0 :: u32)"
    using all by (simp add: executeQueryWithReconnect_def)
  note l = loop_exhausts [OF assms refl n t made]
  show "outcome (executeQueryWithReconnect isQuery answers c) =
      Some (Inl (AttemptsExhausted ''Failed to reconnect''))"
    using l by (simp add: executeQueryWithReconnect_def)
  show "recorded (executeQueryWithReconnect isQuery answers c) = [False]"
    using l by (simp add: executeQueryWithReconnect_def)
next
  fix em
  assume e: "outcome (executeQueryWithReconnect isQuery answers c) = Some (Inl (AttemptsExhausted em))"
  then have "trace (executeQueryWithReconnect isQuery answers c) \<noteq> []"
    by (intro first_attempt_leaves_trace) simp
  moreover note l = loop_exhausted_message [of isQuery answers 0 "[]" c em]
  ultimately show "recorded (executeQueryWithReconnect isQuery answers c) = [False]"
    and "(\<exists>pre code. trace (executeQueryWithReconnect isQuery answers c) =
                pre @ [ExecuteCall (Inl (SQLExecutionError em code))] \<and> isConnectionError code) \<or>
             (\<exists>pre. trace (executeQueryWithReconnect isQuery answers c) =
                pre @ [ReconnectCall (Inr False)] \<and> em = ''Failed to reconnect'')"
    using e unfolding executeQueryWithReconnect_def by blast+
  show "executeInternal_calls (executeQueryWithReconnect isQuery answers c) +
      failed_reconnects (executeQueryWithReconnect isQuery answers c) =
      unat (m_reconnectAttempts c) + 1"
    using loop_uses_all_attempts [OF assms refl, of isQuery answers 0 "[]" em] e
    by (simp add: executeQueryWithReconnect_def)
next
  assume "unat (m_reconnectAttempts c) + 1 \<le> length answers \<and>
          (\<forall>a\<in>set answers. unat (m_reconnectAttempts c) \<le> length (connects (reconnecting a)))"
  then show "outcome (executeQueryWithReconnect isQuery answers c) \<noteq> None"
    unfolding executeQueryWithReconnect_def
    by (intro loop_returns [OF assms refl]) simp_all
qed


theorem executeQueryWithReconnect_attempts_witness:
  "executeInternal_calls
     (executeQueryWithReconnect True [server_gone, server_gone, syntax_error] example_session) = 3 \<and>
   outcome (executeQueryWithReconnect True [server_gone, server_gone, syntax_error] example_session) =
     Some (Inl OtherErrors) \<and>
   recorded (executeQueryWithReconnect True [server_gone, server_gone, syntax_error] example_session) =
     [False] \<and>
   unat (m_reconnectAttempts example_session) + 1 = 4 \<and>
   outcome (executeQueryWithReconnect True [server_gone, server_gone, server_gone, server_gone] example_session) =
     Some (Inl (AttemptsExhausted ''MySQL server has gone away'')) \<and>
   executeInternal_calls
     (executeQueryWithReconnect True [server_gone, server_gone, server_gone, server_gone] example_session) +
   failed_reconnects
     (executeQueryWithReconnect True [server_gone, server_gone, server_gone, server_gone] example_session) = 4"
proof -
  let ?r = "executeQueryWithReconnect True [server_gone, server_gone, syntax_error] example_session"
  let ?x = "executeQueryWithReconnect True [server_gone, server_gone, server_gone, server_gone] example_session"
  have h: "unat (m_reconnectAttempts example_session) + 1 < 2 ^ 32"
    by (simp add: example_session_def)
  have m: "unat (m_reconnectAttempts example_session) + 1 = 4"
    by (simp add: example_session_def)
  have t: "trace ?r =
      [ExecuteCall (Inl (SQLExecutionError ''MySQL server has gone away'' 2006)),
       ReconnectCall (Inr True),
       ExecuteCall (Inl (SQLExecutionError ''MySQL server has gone away'' 2006)),
       ReconnectCall (Inr True)] @
      ExecuteCall (Inl (SQLExecutionError ''You have an error in your SQL syntax'' 1064)) # []"
    by (simp add: executeQueryWithReconnect_def executeQueryWithReconnect_loop.simps
        executeQueryWithReconnect_iteration_def try_executeInternal_def executeInternal_def
        reconnect_def server_gone_def syntax_error_def isConnectionError_def
        updateLastActiveTime_def example_session_def)
  have n: "\<not> isConnectionError 1064" by (simp add: isConnectionError_def)
  have "outcome ?r = Some (Inl OtherErrors) \<and> recorded ?r = [False]"
    using executeQueryWithReconnect_attempts [OF h, of True "[server_gone, server_gone, syntax_error]"]
      t n by blast
  moreover have "executeInternal_calls ?r = 3"
    by (simp add: executeInternal_calls_def t)
  moreover have x: "outcome ?x = Some (Inl (AttemptsExhausted ''MySQL server has gone away''))"
    by (simp add: executeQueryWithReconnect_def executeQueryWithReconnect_loop.simps
        executeQueryWithReconnect_iteration_def try_executeInternal_def executeInternal_def
        reconnect_def server_gone_def isConnectionError_def
        updateLastActiveTime_def example_session_def)
  moreover have "executeInternal_calls ?x + failed_reconnects ?x =
      unat (m_reconnectAttempts example_session) + 1"
    using executeQueryWithReconnect_attempts
      [OF h, of True "[server_gone, server_gone, server_gone, server_gone]"] x
    by blast
  ultimately show ?thesis using m by simp
qed

section \<open>The pool's books\<close>

lemma accountedI:
  assumes "unat n = length idle + card active" and "finite active" and "distinct idle"
    and "set idle \<inter> active = {}" and "\<And>c. c \<in> set idle \<Longrightarrow> c < fresh"
    and "\<And>c. c \<in> active \<Longrightarrow> c < fresh"
  shows "accounted idle active n fresh"
  unfolding accounted_def using assms by blast

lemma accountedD:
  assumes "accounted idle active n fresh"
  shows "unat n = length idle + card active" and "finite active" and "distinct idle"
    and "set idle \<inter> active = {}" and "\<And>c. c \<in> set idle \<Longrightarrow> c < fresh"
    and "\<And>c. c \<in> active \<Longrightarrow> c < fresh"
  using assms unfolding accounted_def by blast+

lemma unat_succ:
  assumes "unat (n :: u64) + 1 < 2 ^ 64"
  shows "unat (n + 1) = unat n + 1"
proof -
  have "unat n + unat (1 :: u64) < 2 ^ LENGTH(64)" using assms by simp
  then have "unat (n + 1) = unat n + unat (1 :: u64)" by (simp only: unat_add_lem)
  then show ?thesis by simp
qed

lemma unat_pred:
  assumes "0 < unat (n :: u64)"
  shows "unat (n - 1) = unat n - 1"
proof -
  have "unat (1 :: u64) \<le> unat n" using assms by simp
  then have "1 \<le> n" by (simp only: word_le_nat_alt)
  then have "unat (n - 1) = unat n - unat (1 :: u64)" by (rule unat_sub)
  then show ?thesis by simp
qed

lemma accounted_pop:
  assumes "accounted (c # rest) active n fresh"
  shows "accounted rest (insert c active) n fresh"
proof (rule accountedI)
  note a = accountedD [OF assms]
  have c: "c \<notin> active" using a(4) by simp
  show "unat n = length rest + card (insert c active)" using a(1,2) c by simp
  show "finite (insert c active)" using a(2) by simp
  show "distinct rest" using a(3) by simp
  show "set rest \<inter> insert c active = {}" using a(3,4) by auto
  show "x < fresh" if "x \<in> set rest" for x using a(5) that by simp
  show "x < fresh" if "x \<in> insert c active" for x using a(5) [of c] a(6) [of x] that by auto
qed

lemma accounted_fresh:
  assumes "accounted idle active n fresh"
  shows "fresh \<notin> active" and "fresh \<notin> set idle"
  using accountedD(5,6) [OF assms, of fresh] by auto

lemma accounted_new_active:
  assumes "accounted idle active n fresh" and "unat n + 1 < 2 ^ 64"
  shows "accounted idle (insert fresh active) (n + 1) (Suc fresh)"
proof (rule accountedI)
  note a = accountedD [OF assms(1)]
  note f = accounted_fresh [OF assms(1)]
  show "unat (n + 1) = length idle + card (insert fresh active)"
    using a(1,2) f(1) by (simp add: unat_succ [OF assms(2)])
  show "finite (insert fresh active)" using a(2) by simp
  show "distinct idle" by (rule a(3))
  show "set idle \<inter> insert fresh active = {}" using a(4) f(2) by simp
  show "x < Suc fresh" if "x \<in> set idle" for x using a(5) [OF that] by simp
  show "x < Suc fresh" if "x \<in> insert fresh active" for x using a(6) [of x] that by auto
qed

lemma accounted_new_idle:
  assumes "accounted idle active n fresh" and "unat n + 1 < 2 ^ 64"
  shows "accounted (idle @ [fresh]) active (n + 1) (Suc fresh)"
proof (rule accountedI)
  note a = accountedD [OF assms(1)]
  note f = accounted_fresh [OF assms(1)]
  show "unat (n + 1) = length (idle @ [fresh]) + card active"
    using a(1) by (simp add: unat_succ [OF assms(2)])
  show "finite active" by (rule a(2))
  show "distinct (idle @ [fresh])" using a(3) f(2) by simp
  show "set (idle @ [fresh]) \<inter> active = {}" using a(4) f(1) by simp
  show "x < Suc fresh" if "x \<in> set (idle @ [fresh])" for x using a(5) [of x] that by auto
  show "x < Suc fresh" if "x \<in> active" for x using a(6) [OF that] by simp
qed

lemma accounted_next:
  assumes "accounted idle active n fresh"
  shows "accounted idle active n (Suc fresh)"
proof (rule accountedI)
  note a = accountedD [OF assms]
  show "unat n = length idle + card active" by (rule a(1))
  show "finite active" by (rule a(2))
  show "distinct idle" by (rule a(3))
  show "set idle \<inter> active = {}" by (rule a(4))
  show "x < Suc fresh" if "x \<in> set idle" for x using a(5) [OF that] by simp
  show "x < Suc fresh" if "x \<in> active" for x using a(6) [OF that] by simp
qed

lemma accounted_release_idle:
  assumes "accounted idle active n fresh" and "c \<in> active"
  shows "accounted (idle @ [c]) (active - {c}) n fresh"
proof (rule accountedI)
  note a = accountedD [OF assms(1)]
  have card: "card active = Suc (card (active - {c}))"
    by (rule card.remove [OF a(2) assms(2)])
  have c: "c \<notin> set idle" using a(4) assms(2) by auto
  show "unat n = length (idle @ [c]) + card (active - {c})" using a(1) card by simp
  show "finite (active - {c})" using a(2) by simp
  show "distinct (idle @ [c])" using a(3) c by simp
  show "set (idle @ [c]) \<inter> (active - {c}) = {}" using a(4) by auto
  show "x < fresh" if "x \<in> set (idle @ [c])" for x using a(5) [of x] a(6) [OF assms(2)] that by auto
  show "x < fresh" if "x \<in> active - {c}" for x using a(6) [of x] that by simp
qed

lemma accounted_release_drop:
  assumes "accounted idle active n fresh" and "c \<in> active"
  shows "accounted idle (active - {c}) (n - 1) fresh"
proof (rule accountedI)
  note a = accountedD [OF assms(1)]
  have card: "card active = Suc (card (active - {c}))"
    by (rule card.remove [OF a(2) assms(2)])
  then have "0 < unat n" using a(1) by simp
  then have "unat (n - 1) = unat n - 1" by (rule unat_pred)
  then show "unat (n - 1) = length idle + card (active - {c})" using a(1) card by simp
  show "finite (active - {c})" using a(2) by simp
  show "distinct idle" by (rule a(3))
  show "set idle \<inter> (active - {c}) = {}" using a(4) by auto
  show "x < fresh" if "x \<in> set idle" for x by (rule a(5) [OF that])
  show "x < fresh" if "x \<in> active - {c}" for x using a(6) [of x] that by simp
qed

lemma accounted_drop_idle:
  assumes "accounted (keep @ c # rest) active n fresh"
  shows "accounted (keep @ rest) active (n - 1) fresh"
proof (rule accountedI)
  note a = accountedD [OF assms]
  have "0 < unat n" using a(1) by simp
  then have "unat (n - 1) = unat n - 1" by (rule unat_pred)
  then show "unat (n - 1) = length (keep @ rest) + card active" using a(1) by simp
  show "finite active" by (rule a(2))
  show "distinct (keep @ rest)" using a(3) by simp
  show "set (keep @ rest) \<inter> active = {}" using a(4) by auto
  show "x < fresh" if "x \<in> set (keep @ rest)" for x using a(5) [of x] that by auto
  show "x < fresh" if "x \<in> active" for x by (rule a(6) [OF that])
qed

lemma validateConnection_result:
  "validateConnection (Some c) False w =
     (m_mysql (sessions w c) \<and> server w c = PingOk,
      if m_mysql (sessions w c) \<and> server w c = PingOk then touch_session c w else w)"
  by (cases "server w c") (simp_all add: validateConnection_def isValid_def touch_session_def)

lemma createConnection_cases:
  obtains (failed) e lb where "createConnection a w = (Inl e, w\<lparr>balancer := lb\<rparr>)"
  | (created) lb c where
      "createConnection a w =
         (Inr (next_ref w),
          w\<lparr>balancer := lb, sessions := (sessions w)(next_ref w := c), next_ref := Suc (next_ref w)\<rparr>)"
proof (cases "getNextDatabase (drawn a) (balancer w)")
  case (Pair r lb)
  show thesis
  proof (cases r)
    case (Inl e)
    with Pair show thesis by (intro failed [of e lb]) (simp add: createConnection_def)
  next
    case (Inr config)
    show thesis
    proof (cases "init_succeeds a")
      case False
      with Pair Inr show thesis
        by (intro failed [of InitFailed lb]) (simp add: createConnection_def)
    next
      case True
      show thesis
      proof (cases "connect_succeeds a")
        case False
        with Pair Inr True show thesis
          by (intro failed [of CannotCreateConnection lb])
             (simp add: createConnection_def connect_def)
      next
        case c: True
        with Pair Inr True show thesis
          by (intro created [where lb = lb]) (simp add: createConnection_def connect_def)
      qed
    qed
  qed
qed

lemma unat_u32_bound: "unat (x :: u32) < 2 ^ 32"
  using unsigned_less [of x, where 'a = nat] by simp

lemma unat_ucast_u32 [simp]: "unat (ucast (x :: u32) :: u64) = unat x"
proof -
  have "unat x < 2 ^ 64"
    using unat_u32_bound [of x] by simp
  then have "take_bit 64 (unat x) = unat x" by (simp only: take_bit_nat_eq_self_iff)
  then show ?thesis by (simp add: unsigned_ucast_eq)
qed

lemma below_limit:
  assumes "(n :: u64) < ucast (limit :: u32)"
  shows "unat n + 1 < 2 ^ 64"
proof -
  have "unat n < unat (ucast limit :: u64)" using assms by (simp only: word_less_nat_alt)
  then have "unat n < unat limit" by simp
  then show ?thesis using unat_u32_bound [of limit] by simp
qed

lemma consistent_cong:
  assumes "m_idleConnections w' = m_idleConnections w"
    and "m_activeConnections w' = m_activeConnections w"
    and "m_totalConnections w' = m_totalConnections w"
    and "m_isRunning w' = m_isRunning w"
    and "next_ref w' = next_ref w"
  shows "consistent w' = consistent w"
  by (simp add: consistent_def assms)

lemma consistent_touch [simp]: "consistent (touch_session c w) = consistent w"
  by (rule consistent_cong) (simp_all add: touch_session_def)

lemma consistent_close [simp]: "consistent (close_session c w) = consistent w"
  by (rule consistent_cong) (simp_all add: close_session_def)

lemma consistent_outside [simp]:
  "consistent (w\<lparr>balancer := lb\<rparr>) = consistent w"
  "consistent (w\<lparr>sessions := store\<rparr>) = consistent w"
  "consistent (w\<lparr>server := srv\<rparr>) = consistent w"
  "consistent (w\<lparr>clock := now\<rparr>) = consistent w"
  "consistent (w\<lparr>m_config := config\<rparr>) = consistent w"
  by (rule consistent_cong; simp)+

lemma getConnection_iteration_head:
  assumes "consistent w" and "m_idleConnections w = c # rest"
    and "fst (validateConnection (Some c) False w)"
  shows "consistent (snd (getConnection_iteration timeout a w))"
proof -
  have v: "m_mysql (sessions w c) \<and> server w c = PingOk"
    using assms(3) by (simp add: validateConnection_result)
  have r: "m_isRunning w" using assms(1,2) by (auto simp: consistent_def)
  have "accounted (c # rest) (dom (m_activeConnections w)) (m_totalConnections w) (next_ref w)"
    using assms(1,2) by (simp add: consistent_def)
  then have "accounted rest (insert c (dom (m_activeConnections w))) (m_totalConnections w) (next_ref w)"
    by (rule accounted_pop)
  then show ?thesis
    using v r assms(2)
    by (simp add: getConnection_iteration_def validateConnection_result getConnectionId_def
        touch_session_def consistent_def)
qed

lemma getConnection_iteration_empty:
  assumes "consistent w" and "m_idleConnections w = []" and "m_isRunning w"
  shows "consistent (snd (getConnection_iteration timeout a w)) \<and>
         m_idleConnections (snd (getConnection_iteration timeout a w)) = [] \<and>
         m_isRunning (snd (getConnection_iteration timeout a w))"
proof (cases "m_totalConnections w < ucast (maxConnections (m_config w))")
  case False
  then show ?thesis using assms
    by (cases "wait_times_out a") (simp_all add: getConnection_iteration_def)
next
  case True
  note acc = assms(1) [unfolded consistent_def, THEN conjunct1]
  show ?thesis
  proof (cases "creating a" w rule: createConnection_cases)
    case (failed e lb)
    then show ?thesis using assms True
      by (cases "wait_times_out a") (simp_all add: getConnection_iteration_def)
  next
    case (created lb s)
    let ?p = "next_ref w"
    let ?w1 = "w\<lparr>balancer := lb, sessions := (sessions w)(?p := s), next_ref := Suc ?p\<rparr>"
    show ?thesis
    proof (cases "m_mysql s \<and> server w ?p = PingOk")
      case valid: True
      have "accounted (m_idleConnections w) (insert ?p (dom (m_activeConnections w)))
              (m_totalConnections w + 1) (Suc ?p)"
        using acc below_limit [OF True] by (rule accounted_new_active)
      then show ?thesis
        using assms True created valid
        by (simp add: getConnection_iteration_def validateConnection_result getConnectionId_def
            touch_session_def consistent_def)
    next
      case invalid: False
      have "accounted (m_idleConnections w) (dom (m_activeConnections w))
              (m_totalConnections w) (Suc ?p)"
        using acc by (rule accounted_next)
      then show ?thesis
        using assms True created invalid
        by (cases "wait_times_out a")
           (auto simp: getConnection_iteration_def validateConnection_result close_session_def
              consistent_def)
    qed
  qed
qed

lemma getConnection_loop_empty:
  assumes "consistent w" and "m_idleConnections w = []" and "m_isRunning w"
  shows "consistent (snd (getConnection_loop timeout answers w))"
  using assms
proof (induction answers arbitrary: w)
  case Nil
  then show ?case by simp
next
  case (Cons a answers)
  note it = getConnection_iteration_empty [OF Cons.prems, of timeout a]
  show ?case
  proof (cases "getConnection_iteration timeout a w")
    case (Pair r w1)
    show ?thesis
    proof (cases r)
      case None
      with Pair it Cons.IH [of w1] show ?thesis by simp
    next
      case (Some x)
      with Pair it show ?thesis by simp
    qed
  qed
qed

lemma getConnection_consistent:
  assumes "consistent w" and "allowed (Acquire timeout answers) w"
  shows "consistent (snd (getConnection timeout answers w))"
proof (cases "m_isRunning w")
  case False
  then show ?thesis using assms(1) by (simp add: getConnection_def)
next
  case True
  let ?t = "if timeout = 0 then connectionTimeout (m_config w) else timeout"
  have "consistent (snd (getConnection_loop ?t answers w))"
  proof (cases "m_idleConnections w")
    case Nil
    with assms(1) True show ?thesis by (intro getConnection_loop_empty)
  next
    case (Cons c rest)
    then have v: "fst (validateConnection (Some c) False w)" using assms(2) by simp
    then have s: "fst (getConnection_iteration ?t a w) = Some (Inr c)" for a
      using Cons by (simp add: getConnection_iteration_def validateConnection_result)
    show ?thesis
    proof (cases answers)
      case Nil
      then show ?thesis using assms(1) by simp
    next
      case answers: (Cons a as)
      have "consistent (snd (getConnection_iteration ?t a w))"
        by (rule getConnection_iteration_head [OF assms(1) Cons v])
      then show ?thesis using s [of a] answers
        by (cases "getConnection_iteration ?t a w") simp
    qed
  qed
  then show ?thesis using True by (simp add: getConnection_def)
qed

lemma dom_erase: "dom (m(c := None)) = dom m - {c}"
  by auto

lemma releaseConnection_consistent:
  assumes "consistent w" and "allowed (Release connection a) w"
  shows "consistent (releaseConnection connection a w)"
proof (cases connection)
  case None
  then show ?thesis using assms(1) by (simp add: releaseConnection_def)
next
  case (Some c)
  then have c: "c \<in> dom (m_activeConnections w)" using assms(2) by simp
  then have r: "m_isRunning w" using assms(1) by (auto simp: consistent_def)
  note acc = assms(1) [unfolded consistent_def, THEN conjunct1]
  let ?w1 = "w\<lparr>m_activeConnections := (m_activeConnections w)(c := None)\<rparr>"
  have drop: "accounted (m_idleConnections w) (dom (m_activeConnections w) - {c})
      (m_totalConnections w - 1) (next_ref w)"
    using acc c by (rule accounted_release_drop)
  have keep: "accounted (m_idleConnections w @ [c]) (dom (m_activeConnections w) - {c})
      (m_totalConnections w) (next_ref w)"
    using acc c by (rule accounted_release_idle)
  show ?thesis
  proof (cases "m_totalConnections w > ucast (maxConnections (m_config w))")
    case True
    then show ?thesis using Some r drop
      by (simp add: releaseConnection_def getConnectionId_def close_session_def consistent_def
          dom_erase)
  next
    case under: False
    show ?thesis
    proof (cases "m_mysql (sessions w c) \<and> server w c = PingOk")
      case True
      then show ?thesis using Some r keep under
        by (simp add: releaseConnection_def getConnectionId_def validateConnection_result
            touch_session_def consistent_def dom_erase)
    next
      case invalid: False
      let ?w3 = "(close_session c ?w1)\<lparr>m_totalConnections := m_totalConnections w - 1\<rparr>"
      have w3: "consistent ?w3"
        using r drop by (simp add: close_session_def consistent_def dom_erase)
      have rel: "releaseConnection connection a w =
          (if m_totalConnections ?w3 < ucast (minConnections (m_config ?w3)) then
             (case createConnection a ?w3 of
                (Inl e, w4) \<Rightarrow> w4
              | (Inr conn, w4) \<Rightarrow>
                  (case validateConnection (Some conn) False w4 of
                     (True, w5) \<Rightarrow>
                       w5\<lparr>m_totalConnections := m_totalConnections w5 + 1,
                          m_idleConnections := m_idleConnections w5 @ [conn]\<rparr>
                   | (False, w5) \<Rightarrow> close_session conn w5))
           else ?w3)"
        using Some under invalid
        by (auto simp: releaseConnection_def getConnectionId_def validateConnection_result Let_def
            close_session_def)
      show ?thesis
      proof (cases "m_totalConnections ?w3 < ucast (minConnections (m_config ?w3))")
        case False
        then show ?thesis using w3 by (simp only: rel if_False)
      next
        case True
        note acc3 = w3 [unfolded consistent_def, THEN conjunct1]
        have r3: "m_isRunning ?w3" using r by (simp add: close_session_def)
        show ?thesis
        proof (cases a ?w3 rule: createConnection_cases)
          case (failed e lb)
          then show ?thesis using True w3 by (simp only: rel if_True) simp
        next
          case (created lb s)
          let ?p = "next_ref ?w3"
          show ?thesis
          proof (cases "m_mysql s \<and> server ?w3 ?p = PingOk")
            case valid: True
            have "accounted (m_idleConnections ?w3 @ [?p]) (dom (m_activeConnections ?w3))
                (m_totalConnections ?w3 + 1) (Suc ?p)"
              using acc3 below_limit [OF True] by (rule accounted_new_idle)
            then show ?thesis
              using True created valid r3
              by (simp only: rel if_True)
                 (simp add: validateConnection_result touch_session_def consistent_def
                    close_session_def)
          next
            case unusable: False
            have "accounted (m_idleConnections ?w3) (dom (m_activeConnections ?w3))
                (m_totalConnections ?w3) (Suc ?p)"
              using acc3 by (rule accounted_next)
            then show ?thesis
              using True created unusable r3
              by (simp only: rel if_True)
                 (auto simp: validateConnection_result consistent_def close_session_def)
          qed
        qed
      qed
    qed
  qed
qed

lemma consistent_balanced:
  "consistent w =
     (balanced w \<and>
      (\<not> m_isRunning w \<longrightarrow> m_idleConnections w = [] \<and> dom (m_activeConnections w) = {}))"
  by (simp add: consistent_def balanced_def)

text \<open>A loop that tries to open \<open>todo\<close> sessions and queues those that validate.\<close>

lemma init_loop_balanced:
  assumes "balanced w" and "unat (m_totalConnections w) + todo < 2 ^ 64"
  shows "balanced (snd (init_loop todo i answers created w)) \<and>
         m_activeConnections (snd (init_loop todo i answers created w)) = m_activeConnections w \<and>
         m_isRunning (snd (init_loop todo i answers created w)) = m_isRunning w"
  using assms
proof (induction todo arbitrary: i created w)
  case 0
  then show ?case by simp
next
  case (Suc todo)
  note acc = Suc.prems(1) [unfolded balanced_def]
  have one: "unat (m_totalConnections w) + 1 < 2 ^ 64" using Suc.prems(2) by simp
  show ?case
  proof (cases "answers i" w rule: createConnection_cases)
    case (failed e lb)
    have "balanced (w\<lparr>balancer := lb\<rparr>)" using acc by (simp add: balanced_def)
    moreover have "unat (m_totalConnections (w\<lparr>balancer := lb\<rparr>)) + todo < 2 ^ 64"
      using Suc.prems(2) by simp
    ultimately show ?thesis
      using Suc.IH [of "w\<lparr>balancer := lb\<rparr>" "i + 1" created] failed by simp
  next
    case (created lb s)
    let ?p = "next_ref w"
    let ?w1 = "w\<lparr>balancer := lb, sessions := (sessions w)(?p := s), next_ref := Suc ?p\<rparr>"
    show ?thesis
    proof (cases "m_mysql s \<and> server w ?p = PingOk")
      case True
      let ?w2 = "(touch_session ?p ?w1)\<lparr>m_idleConnections := m_idleConnections w @ [?p],
                     m_totalConnections := m_totalConnections w + 1\<rparr>"
      have "balanced ?w2"
        using accounted_new_idle [OF acc one] by (simp add: balanced_def touch_session_def)
      moreover have "unat (m_totalConnections ?w2) + todo < 2 ^ 64"
        using Suc.prems(2) by (simp add: unat_succ [OF one])
      ultimately show ?thesis
        using Suc.IH [of ?w2 "i + 1" "created + 1"] created True
        by (simp add: validateConnection_result touch_session_def)
    next
      case False
      let ?w2 = "close_session ?p ?w1"
      have "balanced ?w2"
        using accounted_next [OF acc] by (simp add: balanced_def close_session_def)
      moreover have "unat (m_totalConnections ?w2) + todo < 2 ^ 64"
        using Suc.prems(2) by (simp add: close_session_def)
      ultimately show ?thesis
        using Suc.IH [of ?w2 "i + 1" created] created False
        by (auto simp: validateConnection_result close_session_def)
    qed
  qed
qed

lemma ensure_loop_balanced:
  assumes "balanced w" and "unat (m_totalConnections w) + todo < 2 ^ 64"
  shows "balanced (snd (ensure_loop todo i answers w)) \<and>
         m_activeConnections (snd (ensure_loop todo i answers w)) = m_activeConnections w \<and>
         m_isRunning (snd (ensure_loop todo i answers w)) = m_isRunning w"
  using assms
proof (induction todo arbitrary: i w)
  case 0
  then show ?case by simp
next
  case (Suc todo)
  note acc = Suc.prems(1) [unfolded balanced_def]
  have one: "unat (m_totalConnections w) + 1 < 2 ^ 64" using Suc.prems(2) by simp
  show ?case
  proof (cases "answers i" w rule: createConnection_cases)
    case (failed e lb)
    have "balanced (w\<lparr>balancer := lb\<rparr>)" using acc by (simp add: balanced_def)
    then show ?thesis using failed by simp
  next
    case (created lb s)
    let ?p = "next_ref w"
    let ?w1 = "w\<lparr>balancer := lb, sessions := (sessions w)(?p := s), next_ref := Suc ?p\<rparr>"
    show ?thesis
    proof (cases "m_mysql s \<and> server w ?p = PingOk")
      case True
      let ?w2 = "(touch_session ?p ?w1)\<lparr>m_idleConnections := m_idleConnections w @ [?p],
                     m_totalConnections := m_totalConnections w + 1\<rparr>"
      have "balanced ?w2"
        using accounted_new_idle [OF acc one] by (simp add: balanced_def touch_session_def)
      moreover have "unat (m_totalConnections ?w2) + todo < 2 ^ 64"
        using Suc.prems(2) by (simp add: unat_succ [OF one])
      ultimately show ?thesis
        using Suc.IH [of ?w2 "i + 1"] created True
        by (simp add: validateConnection_result touch_session_def)
    next
      case False
      let ?w2 = "close_session ?p ?w1"
      have "balanced ?w2"
        using accounted_next [OF acc] by (simp add: balanced_def close_session_def)
      moreover have "unat (m_totalConnections ?w2) + todo < 2 ^ 64"
        using Suc.prems(2) by (simp add: close_session_def)
      ultimately show ?thesis
        using Suc.IH [of ?w2 "i + 1"] created False
        by (auto simp: validateConnection_result close_session_def)
    qed
  qed
qed

lemma cleanup_loop_balanced:
  assumes "accounted (keep @ queue) (dom (m_activeConnections w)) (m_totalConnections w) (next_ref w)"
  shows "balanced (cleanup_loop now queue keep w) \<and>
         m_activeConnections (cleanup_loop now queue keep w) = m_activeConnections w \<and>
         m_isRunning (cleanup_loop now queue keep w) = m_isRunning w \<and>
         m_config (cleanup_loop now queue keep w) = m_config w"
  using assms
proof (induction queue arbitrary: keep w)
  case Nil
  then show ?case by (simp add: balanced_def)
next
  case (Cons c rest)
  let ?w' = "(close_session c w)\<lparr>m_totalConnections := m_totalConnections w - 1\<rparr>"
  have kept: "balanced (cleanup_loop now rest (keep @ [c]) w) \<and>
         m_activeConnections (cleanup_loop now rest (keep @ [c]) w) = m_activeConnections w \<and>
         m_isRunning (cleanup_loop now rest (keep @ [c]) w) = m_isRunning w \<and>
         m_config (cleanup_loop now rest (keep @ [c]) w) = m_config w"
    using Cons.prems by (intro Cons.IH) simp
  have "accounted (keep @ rest) (dom (m_activeConnections ?w')) (m_totalConnections ?w') (next_ref ?w')"
    using accounted_drop_idle [OF Cons.prems] by (simp add: close_session_def)
  then have "balanced (cleanup_loop now rest keep ?w') \<and>
         m_activeConnections (cleanup_loop now rest keep ?w') = m_activeConnections ?w' \<and>
         m_isRunning (cleanup_loop now rest keep ?w') = m_isRunning ?w' \<and>
         m_config (cleanup_loop now rest keep ?w') = m_config ?w'"
    by (rule Cons.IH)
  then have dropped: "balanced (cleanup_loop now rest keep ?w') \<and>
         m_activeConnections (cleanup_loop now rest keep ?w') = m_activeConnections w \<and>
         m_isRunning (cleanup_loop now rest keep ?w') = m_isRunning w \<and>
         m_config (cleanup_loop now rest keep ?w') = m_config w"
    by (simp add: close_session_def)
  show ?case using kept dropped by (simp add: Let_def)
qed

lemma shrink_loop_balanced:
  assumes "accounted queue (dom (m_activeConnections w)) (m_totalConnections w) (next_ref w)"
  shows "balanced (shrink_loop targetSize queue w) \<and>
         m_activeConnections (shrink_loop targetSize queue w) = m_activeConnections w \<and>
         m_isRunning (shrink_loop targetSize queue w) = m_isRunning w"
  using assms
proof (induction queue arbitrary: w)
  case Nil
  then show ?case by (simp add: balanced_def)
next
  case (Cons c rest)
  let ?w' = "(close_session c w)\<lparr>m_totalConnections := m_totalConnections w - 1\<rparr>"
  have "accounted rest (dom (m_activeConnections ?w')) (m_totalConnections ?w') (next_ref ?w')"
    using accounted_drop_idle [of "[]" c rest] Cons.prems by (simp add: close_session_def)
  then have "balanced (shrink_loop targetSize rest ?w') \<and>
         m_activeConnections (shrink_loop targetSize rest ?w') = m_activeConnections ?w' \<and>
         m_isRunning (shrink_loop targetSize rest ?w') = m_isRunning ?w'"
    by (rule Cons.IH)
  then have dropped: "balanced (shrink_loop targetSize rest ?w') \<and>
         m_activeConnections (shrink_loop targetSize rest ?w') = m_activeConnections w \<and>
         m_isRunning (shrink_loop targetSize rest ?w') = m_isRunning w"
    by (simp add: close_session_def)
  have stays: "balanced (w\<lparr>m_idleConnections := c # rest\<rparr>)"
    using Cons.prems by (simp add: balanced_def)
  show ?case
  proof (cases "m_totalConnections w > ucast targetSize")
    case True
    then show ?thesis using dropped by simp
  next
    case False
    then show ?thesis using stays by simp
  qed
qed

lemma fold_close_session_books [simp]:
  "m_activeConnections (fold close_session cs w) = m_activeConnections w"
  "next_ref (fold close_session cs w) = next_ref w"
  by (induction cs arbitrary: w) (simp_all add: close_session_def)

lemma accounted_empty: "accounted [] {} 0 fresh"
  by (simp add: accounted_def)

lemma init_consistent:
  assumes "consistent w"
  shows "consistent (snd (init config answers w))"
proof (cases "m_isRunning w \<or> \<not> PoolConfig_isValid config")
  case True
  then show ?thesis using assms by (auto simp: init_def)
next
  case False
  then have stopped: "\<not> m_isRunning w" and valid: "PoolConfig_isValid config" by simp_all
  let ?w1 = "w\<lparr>m_config := config\<rparr>"
  let ?target = "min (initConnections config) (maxConnections config)"
  have empty: "m_idleConnections w = []" "dom (m_activeConnections w) = {}"
    using assms stopped by (simp_all add: consistent_def)
  have b: "balanced ?w1" using assms by (simp add: consistent_balanced balanced_def)
  then have "unat (m_totalConnections w) = 0" using empty by (simp add: balanced_def accounted_def)
  then have "unat (m_totalConnections ?w1) + unat ?target < 2 ^ 64"
    using unat_u32_bound [of ?target] by simp
  note loop = init_loop_balanced [OF b this, of 1 answers 0]
  obtain created w2 where l: "init_loop (unat ?target) 1 answers 0 ?w1 = (created, w2)"
    by (cases "init_loop (unat ?target) 1 answers 0 ?w1")
  have w2: "balanced w2" "m_activeConnections w2 = m_activeConnections w" "\<not> m_isRunning w2"
    using loop l stopped by simp_all
  show ?thesis
  proof (cases "?target > 0 \<and> created = 0")
    case True
    then show ?thesis
      using stopped valid l w2(2) empty(2)
      by (simp add: init_def consistent_def accounted_empty)
  next
    case False
    then show ?thesis
      using stopped valid l w2(1)
      by (auto simp: init_def consistent_balanced balanced_def)
  qed
qed

lemma performHealthCheck_consistent:
  assumes "consistent w"
  shows "consistent (snd (performHealthCheck answers w))"
proof (cases "m_isRunning w")
  case False
  then show ?thesis using assms by (simp add: performHealthCheck_def)
next
  case True
  let ?w1 = "cleanupIdleConnections w"
  have "accounted ([] @ m_idleConnections w) (dom (m_activeConnections w)) (m_totalConnections w)
      (next_ref w)"
    using assms by (simp add: consistent_def)
  from cleanup_loop_balanced [OF this, of "clock w"]
  have w1: "balanced ?w1" "m_isRunning ?w1" using True by (simp_all add: cleanupIdleConnections_def)
  show ?thesis
  proof (cases "m_totalConnections ?w1 < ucast (minConnections (m_config ?w1))")
    case False
    then show ?thesis using True w1
      by (simp add: performHealthCheck_def ensureMinimumConnections_def consistent_balanced)
  next
    case short: True
    let ?todo = "unat (ucast (minConnections (m_config ?w1)) - m_totalConnections ?w1)"
    have "m_totalConnections ?w1 \<le> ucast (minConnections (m_config ?w1))"
      using short by simp
    then have "?todo = unat (ucast (minConnections (m_config ?w1)) :: u64) - unat (m_totalConnections ?w1)"
      by (rule unat_sub)
    moreover have "unat (m_totalConnections ?w1) < unat (ucast (minConnections (m_config ?w1)) :: u64)"
      using short by (simp only: word_less_nat_alt)
    ultimately have "unat (m_totalConnections ?w1) + ?todo = unat (minConnections (m_config ?w1))"
      by simp
    then have "unat (m_totalConnections ?w1) + ?todo < 2 ^ 64"
      using unat_u32_bound [of "minConnections (m_config ?w1)"] by simp
    from ensure_loop_balanced [OF w1(1) this, of 1 answers]
    show ?thesis using True short w1(2)
      by (simp add: performHealthCheck_def ensureMinimumConnections_def consistent_balanced)
  qed
qed

lemma adjustConfiguration_consistent:
  assumes "consistent w"
  shows "consistent (snd (adjustConfiguration newConfig w))"
proof -
  let ?w1 = "w\<lparr>m_config := newConfig\<rparr>"
  have w1: "consistent ?w1" using assms by simp
  have "consistent (shrinkPoolToSize targetSize ?w1)" for targetSize
  proof (cases "\<not> m_isRunning ?w1 \<or> m_totalConnections ?w1 \<le> ucast targetSize")
    case True
    then show ?thesis using w1 by (auto simp: shrinkPoolToSize_def)
  next
    case False
    have "accounted (m_idleConnections ?w1) (dom (m_activeConnections ?w1)) (m_totalConnections ?w1)
      (next_ref ?w1)"
      using w1 by (simp add: consistent_def)
    from shrink_loop_balanced [OF this, of targetSize] False
    show ?thesis by (simp add: shrinkPoolToSize_def consistent_balanced)
  qed
  then show ?thesis using w1 by (simp add: adjustConfiguration_def Let_def)
qed

lemma step_consistent:
  assumes "consistent w" and "allowed e w"
  shows "consistent (step e w)"
proof (cases e)
  case (Init config answers)
  then show ?thesis using init_consistent [OF assms(1)] by simp
next
  case (Acquire timeout answers)
  then show ?thesis using getConnection_consistent [OF assms(1)] assms(2) by simp
next
  case (Release connection a)
  then show ?thesis using releaseConnection_consistent [OF assms(1)] assms(2) by simp
next
  case (HealthCheck answers)
  then show ?thesis using performHealthCheck_consistent [OF assms(1)] by simp
next
  case (Reconfigure newConfig)
  then show ?thesis using adjustConfiguration_consistent [OF assms(1)] by simp
next
  case (Outside lb store srv now)
  have "consistent (w\<lparr>balancer := lb, sessions := store, server := srv, clock := now\<rparr>) =
      consistent w"
    by (rule consistent_cong) simp_all
  then show ?thesis using Outside assms(1) by simp
qed

lemma run_consistent:
  assumes "consistent w" and "orderly events w"
  shows "consistent (run events w)"
  using assms by (induction events arbitrary: w) (simp_all add: step_consistent)

lemma ConnectionPool_consistent: "consistent (ConnectionPool lb store srv now)"
  by (simp add: consistent_def ConnectionPool_def accounted_empty)

lemmas evaluate =
  init_def PoolConfig_isValid_def example_config_def PoolConfig_default_def
  createConnection_def getNextDatabase_def selectWeighted_def example_balancer_def connecting_def
  connect_def updateLastActiveTime_def validateConnection_def isValid_def close_session_def
  touch_session_def getConnection_def getConnection_iteration_def getConnectionId_def
  releaseConnection_def performHealthCheck_def cleanupIdleConnections_def
  ensureMinimumConnections_def adjustConfiguration_def shrinkPoolToSize_def
  isValidQuietly_def close_def acquiring_def word_sless_alt Let_def

text \<open>
  The claim C2 as it is written fails on a history that releases a session twice: after
  init, one acquire and two releases of the session, the idle queue holds the session
  twice, no session is checked out, and the counter is 1.
\<close>

theorem pool_accounts_counterexample:
  "m_idleConnections (run double_release stopped_pool) = [0, 0] \<and>
   dom (m_activeConnections (run double_release stopped_pool)) = {} \<and>
   m_totalConnections (run double_release stopped_pool) = 1"
  by (simp add: double_release_def stopped_pool_def ConnectionPool_def evaluate example_session_def)

text \<open>
  C2, amended. In every state that a pool reaches from its construction by init, acquire,
  release, health passes and reconfiguration, with any changes of the sessions, the
  servers, the selector and the clock from outside in between, provided that every release
  is of a session that is checked out at that moment and that no acquire finds a session
  at the head of the idle queue that fails validation: the number of sessions in the idle
  queue plus the number of sessions in the checked-out map is the counter
  \<open>m_totalConnections\<close>.
\<close>

theorem pool_accounts_balance:
  assumes "orderly events (ConnectionPool lb store srv now)"
  shows "length (m_idleConnections (run events (ConnectionPool lb store srv now))) +
         card (dom (m_activeConnections (run events (ConnectionPool lb store srv now)))) =
         unat (m_totalConnections (run events (ConnectionPool lb store srv now)))"
  using run_consistent [OF ConnectionPool_consistent assms]
  by (simp add: consistent_def accounted_def)

theorem pool_accounts_balance_witness:
  "orderly quiet_day stopped_pool \<and>
   length (m_idleConnections (run quiet_day stopped_pool)) +
   card (dom (m_activeConnections (run quiet_day stopped_pool))) =
   unat (m_totalConnections (run quiet_day stopped_pool))"
proof -
  have o: "orderly quiet_day (ConnectionPool example_balancer (\<lambda>r. example_session) (\<lambda>r. PingOk) 0)"
    by (simp add: quiet_day_def ConnectionPool_def evaluate example_session_def)
  show ?thesis
    using o pool_accounts_balance [OF o] by (simp add: stopped_pool_def)
qed

end
